theory Spec2Isabelle
  imports Main "HOL-Library.AList"
begin

section \<open>Values, factories and the heap\<close>

text \<open>
  The embedding follows \<^verbatim>\<open>src/inject.ts\<close> and \<^verbatim>\<open>src/merge.ts\<close>.  JavaScript objects
  are dictionaries of their own string keys in insertion order (association lists), all
  with the prototype \<^verbatim>\<open>Object.prototype\<close>, whose names the operator \<^verbatim>\<open>in\<close> and a read find
  in every one of them.  Integer-like keys, which JavaScript orders first, and the key
  \<^verbatim>\<open>__proto__\<close> as a key of a module, which a literal and an assignment take for the
  prototype, are outside the model.  Objects that the code mutates in place live in an
  explicit heap, addressed by
  their index, because \<^verbatim>\<open>merge\<close> stores references to the groups of its source.
\<close>

type_synonym key = string

text \<open>
  A JavaScript value a factory may produce or throw.  \<open>ErrorV m c\<close> is an instance of
  \<^verbatim>\<open>Error\<close> with message \<open>m\<close> and optional \<^verbatim>\<open>cause\<close> \<open>c\<close>; \<^verbatim>\<open>new Error(m)\<close> is
  \<open>ErrorV m None\<close>.  \<open>Proxy p\<close> is a reference to the container node \<open>p\<close>.  \<open>Inherited k\<close> is
  the member \<open>k\<close> of \<^verbatim>\<open>Object.prototype\<close>, which every plain object inherits.
\<close>

datatype val = Undefined | Num int | Str string | ErrorV string "val option" | Proxy nat
  | Inherited key

definition isError :: "val \<Rightarrow> bool" where
  \<comment> \<open>\<^verbatim>\<open>v instanceof Error\<close>\<close>
  "isError v = (case v of ErrorV m c \<Rightarrow> True | _ \<Rightarrow> False)"

text \<open>
  The body of a factory, as far as the container can observe it: it returns, throws, or
  reads a property of a value (typically of its context) and continues with the outcome
  of that read, \<open>Inl\<close> for a thrown value (so a body may catch) and \<open>Inr\<close> for the value
  read.
\<close>

datatype fac = Return val | Throw val | Read val key "val + val \<Rightarrow> fac"

text \<open>
  A factory function: \<open>fid\<close> names the user's function (for counting its invocations),
  \<open>isEager\<close> is the hidden \<^verbatim>\<open>[isEager]\<close> tag, \<open>body\<close> maps the context argument to what
  the function does.
\<close>

record factory =
  fid :: nat
  isEager :: bool
  body :: "val \<Rightarrow> fac"

definition eager :: "factory \<Rightarrow> factory" where
  \<comment> \<open>the wrapper \<^verbatim>\<open>(ctr) => factory(ctr)\<close> delegates to the user's function\<close>
  "eager f = (if isEager f then f
              else \<lparr>fid = fid f, isEager = True, body = (\<lambda>ctr. body f ctr)\<rparr>)"

text \<open>
  An entry of a module object: a factory (\<^verbatim>\<open>typeof value === 'function'\<close>) or a reference
  to a nested module object, a group.
\<close>

datatype mval = Fn factory | Obj nat

type_synonym obj = "(key \<times> mval) list"

text \<open>
  A property of the cache object \<^verbatim>\<open>obj\<close> behind a proxy: the private symbol
  \<^verbatim>\<open>requested\<close>, which no factory can produce, or a stored value.
\<close>

datatype cell = Requested | Stored val

text \<open>
  What the closure of one \<^verbatim>\<open>proxify\<close> call holds: the proxy's target object and the
  arguments \<^verbatim>\<open>module\<close>, \<^verbatim>\<open>container\<close> and \<^verbatim>\<open>path\<close> (the last two optional).
\<close>

record node =
  ptarget :: "(key \<times> cell) list"
  pmodule :: nat
  pcontainer :: "nat option"
  ppath :: "string option"

text \<open>One invocation \<^verbatim>\<open>value(container)\<close> of a factory: the function, the argument, and
  the cache slot on whose behalf \<^verbatim>\<open>resolve\<close> made the call (\<open>None\<close> for a call made by
  \<^verbatim>\<open>initializeEagerServices\<close>).\<close>

record call =
  callee :: nat
  ctx :: val
  site :: "(nat \<times> key) option"

record state =
  objs :: "obj list"
  nodes :: "node list"
  calls :: "call list"

definition init :: state where
  "init = \<lparr>objs = [], nodes = [], calls = []\<rparr>"

text \<open>A computation returns \<open>None\<close> when its recursion budget is used up, and otherwise
  the outcome (\<open>Inl\<close> a thrown value, \<open>Inr\<close> the result) with the new state.\<close>

type_synonym 'a result = "((val + 'a) \<times> state) option"

type_synonym reader = "val \<Rightarrow> key \<Rightarrow> state \<Rightarrow> val result"

definition keys :: "('k \<times> 'v) list \<Rightarrow> 'k list" where
  \<comment> \<open>Modelled from the spec: \<^verbatim>\<open>keys\<close> of \<^verbatim>\<open>./base\<close>, the own keys of an object in order.\<close>
  "keys ob = map fst ob"

definition isObj :: "mval option \<Rightarrow> bool" where
  \<comment> \<open>Modelled from the spec: \<^verbatim>\<open>isObj\<close> of \<^verbatim>\<open>./base\<close>, true of a nested module (a group).\<close>
  "isObj v = (case v of Some (Obj a) \<Rightarrow> True | _ \<Rightarrow> False)"

definition objectPrototype :: "key list" where
  \<comment> \<open>the property names of \<^verbatim>\<open>Object.prototype\<close>\<close>
  "objectPrototype =
     [''constructor'', ''__defineGetter__'', ''__defineSetter__'', ''hasOwnProperty'',
      ''__lookupGetter__'', ''__lookupSetter__'', ''isPrototypeOf'', ''propertyIsEnumerable'',
      ''toString'', ''valueOf'', ''__proto__'', ''toLocaleString'']"

definition inObject :: "(key \<times> 'v) list \<Rightarrow> key \<Rightarrow> bool" where
  \<comment> \<open>\<^verbatim>\<open>prop in ob\<close> for a plain object \<open>ob\<close>: an own key, or a name it inherits\<close>
  "inObject ob prop \<longleftrightarrow> prop \<in> set (keys ob) \<or> prop \<in> set objectPrototype"

definition truthy :: "string option \<Rightarrow> bool" where
  \<comment> \<open>an optional string used as a condition: \<^verbatim>\<open>undefined\<close> and \<^verbatim>\<open>''\<close> are falsy\<close>
  "truthy x = (case x of None \<Rightarrow> False | Some str \<Rightarrow> str \<noteq> [])"

definition newObj :: "state \<Rightarrow> nat \<times> state" where
  \<comment> \<open>the object literal \<^verbatim>\<open>{}\<close>\<close>
  "newObj s = (length (objs s), s\<lparr>objs := objs s @ [[]]\<rparr>)"

definition setKey :: "nat \<Rightarrow> key \<Rightarrow> mval \<Rightarrow> state \<Rightarrow> state" where
  \<comment> \<open>\<^verbatim>\<open>target[key] = v\<close> on a module object\<close>
  "setKey a k v s = s\<lparr>objs := (objs s)[a := AList.update k v (objs s ! a)]\<rparr>"

definition setProp :: "nat \<Rightarrow> key \<Rightarrow> cell \<Rightarrow> state \<Rightarrow> state" where
  \<comment> \<open>\<^verbatim>\<open>obj[prop] = c\<close> on the target of proxy \<open>p\<close>\<close>
  "setProp p prop c s =
     s\<lparr>nodes := (nodes s)[p := (nodes s ! p)\<lparr>ptarget := AList.update prop c (ptarget (nodes s ! p))\<rparr>]\<rparr>"

section \<open>The resolver\<close>

primrec run :: "fac \<Rightarrow> reader \<Rightarrow> state \<Rightarrow> val result" where
  "run (Return v) rd s = Some (Inr v, s)"
| "run (Throw e) rd s = Some (Inl e, s)"
| "run (Read v k cont) rd s =
     (case rd v k s of None \<Rightarrow> None | Some (r, s') \<Rightarrow> run (cont r) rd s')"

definition invoke :: "factory \<Rightarrow> nat \<Rightarrow> (nat \<times> key) option \<Rightarrow> reader \<Rightarrow> state \<Rightarrow> val result" where
  \<comment> \<open>the call \<^verbatim>\<open>value(container)\<close>, recorded in \<open>calls\<close>\<close>
  "invoke value container st rd s =
     run (body value (Proxy container)) rd
       (s\<lparr>calls := calls s @ [\<lparr>callee = fid value, ctx = Proxy container, site = st\<rparr>]\<rparr>)"

definition proxify :: "nat \<Rightarrow> nat option \<Rightarrow> string option \<Rightarrow> state \<Rightarrow> nat \<times> state" where
  "proxify module container path s =
     (length (nodes s),
      s\<lparr>nodes := nodes s @ [\<lparr>ptarget = [], pmodule = module, pcontainer = container, ppath = path\<rparr>]\<rparr>)"

definition constructionFailure :: "string \<Rightarrow> val" where
  "constructionFailure path = ErrorV (''Construction failure: '' @ path) None"

definition cycleDetected :: "string \<Rightarrow> val" where
  "cycleDetected path =
     ErrorV (''Cycle detected. Please make '' @ path
             @ '' lazy. See https://github.com/langium/ginject#cyclic-dependencies'') None"

text \<open>
  \<^verbatim>\<open>resolve(obj, prop, module, container, parentPath)\<close>.  The cache object \<^verbatim>\<open>obj\<close> is the
  target of proxy \<open>p\<close>; \<open>rd\<close> is how the invoked factory reads properties.  The cache
  object is a plain object, as the modules are: a name of \<^verbatim>\<open>Object.prototype\<close> that is not
  a key of its own is in it, and read from it is the inherited member.  Where the second
  test is reached the name is therefore not an inherited one and \<^verbatim>\<open>module[prop]\<close> is an own
  entry of the module; the last case of the lookup there is never reached.
\<close>

definition resolve ::
  "reader \<Rightarrow> nat \<Rightarrow> key \<Rightarrow> nat \<Rightarrow> nat \<Rightarrow> string option \<Rightarrow> state \<Rightarrow> val result" where
  "resolve rd p prop module container parentPath s =
     (let path = (if truthy parentPath then ''.'' else '''') @ prop in
      if inObject (ptarget (nodes s ! p)) prop then
        (case map_of (ptarget (nodes s ! p)) prop of
           Some c \<Rightarrow>
             (case c of
                Requested \<Rightarrow> Some (Inl (cycleDetected path), s)
              | Stored v \<Rightarrow>
                  if isError v then Some (Inl (constructionFailure path), s)
                  else Some (Inr v, s))
         | None \<Rightarrow> Some (Inr (Inherited prop), s))
      else if inObject (objs s ! module) prop then
        (case map_of (objs s ! module) prop of
           Some value \<Rightarrow>
             (let s1 = setProp p prop Requested s in
              case value of
                Fn f \<Rightarrow>
                  (case invoke f container (Some (p, prop)) rd s1 of
                     None \<Rightarrow> None
                   | Some (Inr v, s2) \<Rightarrow> Some (Inr v, setProp p prop (Stored v) s2)
                   | Some (Inl error, s2) \<Rightarrow>
                       Some (Inl error,
                             setProp p prop (Stored (if isError error then error else Undefined)) s2))
              | Obj g \<Rightarrow>
                  (let (q, s2) = proxify g (Some container)
                                   (Some (if path \<noteq> [] then ''.'' else '''')) s1
                   in Some (Inr (Proxy q), setProp p prop (Stored (Proxy q)) s2)))
         | None \<Rightarrow> Some (Inr Undefined, s))
      else Some (Inr Undefined, s))"

text \<open>The traps of the proxy \<open>p\<close>; \<^verbatim>\<open>container || proxy\<close> is the proxy itself at the root.\<close>

definition trap_get :: "reader \<Rightarrow> nat \<Rightarrow> key \<Rightarrow> state \<Rightarrow> val result" where
  "trap_get rd p prop s =
     resolve rd p prop (pmodule (nodes s ! p))
       (case pcontainer (nodes s ! p) of Some c \<Rightarrow> c | None \<Rightarrow> p) (ppath (nodes s ! p)) s"

definition trap_getOwnPropertyDescriptor ::
  "reader \<Rightarrow> nat \<Rightarrow> key \<Rightarrow> state \<Rightarrow> (cell option) result" where
  "trap_getOwnPropertyDescriptor rd p prop s =
     (case trap_get rd p prop s of
        None \<Rightarrow> None
      | Some (Inl e, s') \<Rightarrow> Some (Inl e, s')
      | Some (Inr v, s') \<Rightarrow> Some (Inr (map_of (ptarget (nodes s' ! p)) prop), s'))"

definition trap_has :: "nat \<Rightarrow> key \<Rightarrow> state \<Rightarrow> bool" where
  \<comment> \<open>\<^verbatim>\<open>prop in module\<close>\<close>
  "trap_has p prop s = inObject (objs s ! pmodule (nodes s ! p)) prop"

definition trap_ownKeys :: "nat \<Rightarrow> state \<Rightarrow> key list" where
  "trap_ownKeys p s = keys (objs s ! pmodule (nodes s ! p))"

text \<open>
  The property read \<^verbatim>\<open>v[k]\<close> with at most \<open>n\<close> nested reads in progress: a proxy answers
  through its \<^verbatim>\<open>get\<close> trap and a read of \<^verbatim>\<open>undefined\<close> throws a TypeError.  The other
  values are read as \<^verbatim>\<open>undefined\<close> at every key: what a number, a string, an error or a
  function has of its own or inherits (a length, a message, \<^verbatim>\<open>toString\<close>) is outside the
  model, and so is a reference to a proxy that was never created.
\<close>

primrec readProp :: "nat \<Rightarrow> reader" where
  "readProp 0 = (\<lambda>v k s. None)"
| "readProp (Suc n) = (\<lambda>v k s.
     case v of
       Proxy p \<Rightarrow> if p < length (nodes s) then trap_get (readProp n) p k s
                  else Some (Inr Undefined, s)
     | Undefined \<Rightarrow>
         Some (Inl (ErrorV (''Cannot read properties of undefined (reading ''
                            @ [CHR 0x27] @ k @ [CHR 0x27] @ '')'') None), s)
     | _ \<Rightarrow> Some (Inr Undefined, s))"

section \<open>Merging modules and building the container\<close>

primrec forEach :: "'a list \<Rightarrow> ('a \<Rightarrow> state \<Rightarrow> unit result) \<Rightarrow> state \<Rightarrow> unit result" where
  "forEach [] f s = Some (Inr (), s)"
| "forEach (x # xs) f s =
     (case f x s of
        None \<Rightarrow> None
      | Some (Inl e, s') \<Rightarrow> Some (Inl e, s')
      | Some (Inr u, s') \<Rightarrow> forEach xs f s')"

text \<open>
  \<^verbatim>\<open>merge(target, source)\<close> on the addresses of two module objects, with a recursion
  budget.  A key of the source always has a value; the last case is never reached.
\<close>

primrec merge :: "nat \<Rightarrow> nat \<Rightarrow> nat \<Rightarrow> state \<Rightarrow> (nat \<times> state) option" where
  "merge 0 target source s = None"
| "merge (Suc n) target source s =
     (case forEach (keys (objs s ! source)) (\<lambda>key s.
             let sourceValue = map_of (objs s ! source) key;
                 targetValue = map_of (objs s ! target) key
             in if isObj sourceValue \<and> isObj targetValue
                then (case (targetValue, sourceValue) of
                        (Some (Obj tv), Some (Obj sv)) \<Rightarrow>
                          (case merge n tv sv s of
                             None \<Rightarrow> None
                           | Some (r, s') \<Rightarrow> Some (Inr (), setKey target key (Obj r) s'))
                      | _ \<Rightarrow> Some (Inr (), s))
                else (case sourceValue of
                        Some v \<Rightarrow> Some (Inr (), setKey target key v s)
                      | None \<Rightarrow> Some (Inr (), s))) s of
        None \<Rightarrow> None
      | Some (r, s') \<Rightarrow> Some (target, s'))"

primrec reduce ::
  "(nat \<Rightarrow> nat \<Rightarrow> state \<Rightarrow> (nat \<times> state) option) \<Rightarrow> nat list \<Rightarrow> nat \<Rightarrow> state \<Rightarrow> (nat \<times> state) option" where
  "reduce f [] acc s = Some (acc, s)"
| "reduce f (x # xs) acc s =
     (case f acc x s of None \<Rightarrow> None | Some (acc', s') \<Rightarrow> reduce f xs acc' s')"

primrec initializeEagerServices :: "nat \<Rightarrow> nat \<Rightarrow> nat \<Rightarrow> state \<Rightarrow> unit result" where
  "initializeEagerServices 0 module container s = None"
| "initializeEagerServices (Suc n) module container s =
     forEach (keys (objs s ! module)) (\<lambda>key s.
        case map_of (objs s ! module) key of
          Some (Fn value) \<Rightarrow>
            if isEager value
            then (case invoke value container None (readProp n) s of
                    None \<Rightarrow> None
                  | Some (Inl e, s') \<Rightarrow> Some (Inl e, s')
                  | Some (Inr v, s') \<Rightarrow> Some (Inr (), s'))
            else Some (Inr (), s)
        | Some (Obj value) \<Rightarrow> initializeEagerServices n value container s
        | None \<Rightarrow> Some (Inr (), s)) s"

definition inject :: "nat \<Rightarrow> nat list \<Rightarrow> state \<Rightarrow> val result" where
  "inject n modules s =
     (let (acc, s0) = newObj s in
      case reduce (merge n) modules acc s0 of
        None \<Rightarrow> None
      | Some (module, s1) \<Rightarrow>
          (let (container, s2) = proxify module None None s1 in
           case initializeEagerServices n module container s2 of
             None \<Rightarrow> None
           | Some (Inl e, s3) \<Rightarrow> Some (Inl e, s3)
           | Some (Inr u, s3) \<Rightarrow> Some (Inr (Proxy container), s3)))"

section \<open>Module literals\<close>

text \<open>
  A caller writes a module as an object literal; evaluating the literal creates one new
  object per group.
\<close>

datatype mtree = Leaf factory | Group "(key \<times> mtree) list"

fun literal :: "mtree \<Rightarrow> state \<Rightarrow> mval \<times> state"
  and props :: "nat \<Rightarrow> (key \<times> mtree) list \<Rightarrow> state \<Rightarrow> state" where
  "literal (Leaf f) s = (Fn f, s)"
| "literal (Group kvs) s = (let (a, s0) = newObj s in (Obj a, props a kvs s0))"
| "props a [] s = s"
| "props a ((k, t) # kvs) s = (let (v, s') = literal t s in props a kvs (setKey a k v s'))"

primrec literals :: "mtree list \<Rightarrow> state \<Rightarrow> nat list \<times> state" where
  "literals [] s = ([], s)"
| "literals (m # ms) s =
     (case literal m s of
        (Obj a, s') \<Rightarrow> (let (as, s'') = literals ms s' in (a # as, s''))
      | (Fn f, s') \<Rightarrow> literals ms s')"

definition injectLiterals :: "nat \<Rightarrow> mtree list \<Rightarrow> state \<Rightarrow> val result" where
  \<comment> \<open>\<^verbatim>\<open>inject(m1, ..., mn)\<close> with the modules written as literals at the call\<close>
  "injectLiterals n ms s = (let (as, s') = literals ms s in inject n as s')"

section \<open>Using a container\<close>

definition andThen :: "'a result \<Rightarrow> ('a \<Rightarrow> state \<Rightarrow> 'b result) \<Rightarrow> 'b result" where
  \<comment> \<open>sequencing of two statements: a throw of the first skips the second\<close>
  "andThen r f =
     (case r of None \<Rightarrow> None | Some (Inl e, s) \<Rightarrow> Some (Inl e, s) | Some (Inr v, s) \<Rightarrow> f v s)"

definition attempt :: "'a result \<Rightarrow> (state \<Rightarrow> 'b result) \<Rightarrow> 'b result" where
  \<comment> \<open>\<^verbatim>\<open>try { first } catch {}; second\<close>\<close>
  "attempt r f = (case r of None \<Rightarrow> None | Some (x, s) \<Rightarrow> f s)"

primrec readPath :: "nat \<Rightarrow> key list \<Rightarrow> val \<Rightarrow> state \<Rightarrow> val result" where
  \<comment> \<open>the chained read \<^verbatim>\<open>v.k1.k2...\<close>\<close>
  "readPath n [] v s = Some (Inr v, s)"
| "readPath n (k # ks) v s = andThen (readProp n v k s) (readPath n ks)"

text \<open>Any sequence of property reads, whatever their outcomes.\<close>

primrec reads :: "nat \<Rightarrow> (val \<times> key) list \<Rightarrow> state \<Rightarrow> state option" where
  "reads n [] s = Some s"
| "reads n (x # xs) s =
     (case readProp n (fst x) (snd x) s of None \<Rightarrow> None | Some (r, s') \<Rightarrow> reads n xs s')"

text \<open>
  \<^verbatim>\<open>for (key in proxy)\<close> and \<^verbatim>\<open>Object.keys(proxy)\<close>: the language asks the \<^verbatim>\<open>ownKeys\<close>
  trap for the keys and then the \<^verbatim>\<open>getOwnPropertyDescriptor\<close> trap for each of them,
  keeping the keys that have an (enumerable) descriptor.
\<close>

primrec forInKeys :: "reader \<Rightarrow> nat \<Rightarrow> key list \<Rightarrow> state \<Rightarrow> (key list) result" where
  "forInKeys rd p [] s = Some (Inr [], s)"
| "forInKeys rd p (k # ks) s =
     (case trap_getOwnPropertyDescriptor rd p k s of
        None \<Rightarrow> None
      | Some (Inl e, s') \<Rightarrow> Some (Inl e, s')
      | Some (Inr d, s') \<Rightarrow>
          (case forInKeys rd p ks s' of
             None \<Rightarrow> None
           | Some (Inl e, s'') \<Rightarrow> Some (Inl e, s'')
           | Some (Inr r, s'') \<Rightarrow> Some (Inr (case d of None \<Rightarrow> r | Some c \<Rightarrow> k # r), s'')))"

definition forIn :: "reader \<Rightarrow> nat \<Rightarrow> state \<Rightarrow> (key list) result" where
  "forIn rd p s = forInKeys rd p (trap_ownKeys p s) s"

definition cellAt :: "state \<Rightarrow> nat \<Rightarrow> key \<Rightarrow> cell option" where
  \<comment> \<open>the cache entry of key \<open>k\<close> at proxy \<open>p\<close>; \<open>None\<close> is the empty entry\<close>
  "cellAt s p k = map_of (ptarget (nodes s ! p)) k"

definition croot :: "state \<Rightarrow> nat \<Rightarrow> nat" where
  \<comment> \<open>\<^verbatim>\<open>container || proxy\<close> at proxy \<open>p\<close>\<close>
  "croot s p = (case pcontainer (nodes s ! p) of Some c \<Rightarrow> c | None \<Rightarrow> p)"

definition callsFor :: "nat \<Rightarrow> key \<Rightarrow> state \<Rightarrow> call list" where
  \<comment> \<open>the factory invocations made for key \<open>k\<close> of proxy \<open>p\<close>\<close>
  "callsFor p k s = filter (\<lambda>e. site e = Some (p, k)) (calls s)"

definition callsOf :: "nat \<Rightarrow> state \<Rightarrow> nat" where
  \<comment> \<open>how often the function \<open>i\<close> has been called\<close>
  "callsOf i s = length (filter (\<lambda>e. callee e = i) (calls s))"

section \<open>How a state grows\<close>

text \<open>
  A call recorded between \<open>s\<close> and \<open>s'\<close> is \<^emph>\<open>fresh\<close> when \<^verbatim>\<open>resolve\<close> made it for an
  entry that was empty in \<open>s\<close>, with the root container of that entry's proxy as argument.
\<close>

definition fresh :: "state \<Rightarrow> state \<Rightarrow> call \<Rightarrow> bool" where
  "fresh s s' e \<longleftrightarrow>
     (\<exists>q k. site e = Some (q, k) \<and> q < length (nodes s') \<and>
            (q < length (nodes s) \<longrightarrow> cellAt s q k = None) \<and> ctx e = Proxy (croot s' q))"

text \<open>
  \<open>ext s s'\<close>: the state \<open>s'\<close> extends \<open>s\<close>.  The module objects are the same, the
  proxies of \<open>s\<close> keep their closure and every cache entry they have, a new proxy has the
  root container of an old one, and the new calls are fresh.
\<close>

definition ext :: "state \<Rightarrow> state \<Rightarrow> bool" where
  "ext s s' \<longleftrightarrow>
     objs s' = objs s \<and> length (nodes s) \<le> length (nodes s') \<and>
     (\<forall>p<length (nodes s).
        pmodule (nodes s' ! p) = pmodule (nodes s ! p) \<and>
        pcontainer (nodes s' ! p) = pcontainer (nodes s ! p) \<and>
        ppath (nodes s' ! p) = ppath (nodes s ! p)) \<and>
     (\<forall>p<length (nodes s). \<forall>k c. cellAt s p k = Some c \<longrightarrow> cellAt s' p k = Some c) \<and>
     (\<forall>q. length (nodes s) \<le> q \<longrightarrow> q < length (nodes s') \<longrightarrow>
          (\<exists>p<length (nodes s). croot s' q = croot s p)) \<and>
     (\<exists>new. calls s' = calls s @ new \<and> (\<forall>e\<in>set new. fresh s s' e))"

section \<open>Example modules\<close>

definition get :: "val \<Rightarrow> key \<Rightarrow> (val \<Rightarrow> fac) \<Rightarrow> fac" where
  \<comment> \<open>a read whose exception the body does not catch\<close>
  "get v k cont = Read v k (\<lambda>r. case r of Inl e \<Rightarrow> Throw e | Inr x \<Rightarrow> cont x)"

definition lazy :: "nat \<Rightarrow> (val \<Rightarrow> fac) \<Rightarrow> factory" where
  \<comment> \<open>a plain function, not tagged\<close>
  "lazy i b = \<lparr>fid = i, isEager = False, body = b\<rparr>"

definition cyclic :: mtree where
  \<comment> \<open>\<^verbatim>\<open>{a: (ctx) => ctx.b, b: (ctx) => ctx.a}\<close>\<close>
  "cyclic = Group [(''a'', Leaf (lazy 1 (\<lambda>c. get c ''b'' Return))),
                   (''b'', Leaf (lazy 2 (\<lambda>c. get c ''a'' Return)))]"

definition errorService :: mtree where
  \<comment> \<open>\<^verbatim>\<open>{e: () => new Error('x')}\<close>: the service is an Error object\<close>
  "errorService = Group [(''e'', Leaf (lazy 1 (\<lambda>c. Return (ErrorV ''x'' None))))]"

definition eagerPair :: mtree where
  \<comment> \<open>\<^verbatim>\<open>{p1: eager(() => 1), p2: () => 2}\<close>\<close>
  "eagerPair = Group [(''p1'', Leaf (eager (lazy 1 (\<lambda>c. Return (Num 1))))),
                      (''p2'', Leaf (lazy 2 (\<lambda>c. Return (Num 2))))]"

definition failing :: mtree where
  \<comment> \<open>\<^verbatim>\<open>{first: () => { throw new Error('construction error') }}\<close>\<close>
  "failing = Group [(''first'', Leaf (lazy 1 (\<lambda>c. Throw (ErrorV ''construction error'' None))))]"

definition nestedCycle :: mtree where
  \<comment> \<open>\<^verbatim>\<open>{b: {c: {d: (ctx) => ctx.b.c.d}}}\<close>\<close>
  "nestedCycle = Group [(''b'', Group [(''c'', Group [(''d'',
     Leaf (lazy 1 (\<lambda>c. get c ''b'' (\<lambda>b. get b ''c'' (\<lambda>cc. get cc ''d'' Return)))))])])]"

definition nestedFailure :: mtree where
  \<comment> \<open>\<^verbatim>\<open>{b: {c: {d: () => { throw new Error('boom') }}}}\<close>\<close>
  "nestedFailure = Group [(''b'', Group [(''c'', Group [(''d'',
     Leaf (lazy 1 (\<lambda>c. Throw (ErrorV ''boom'' None))))])])]"

definition groupX :: mtree where
  \<comment> \<open>\<^verbatim>\<open>{a: {x: () => 1}}\<close>\<close>
  "groupX = Group [(''a'', Group [(''x'', Leaf (lazy 1 (\<lambda>c. Return (Num 1))))])]"

definition groupY :: mtree where
  \<comment> \<open>\<^verbatim>\<open>{a: {y: () => 2}}\<close>\<close>
  "groupY = Group [(''a'', Group [(''y'', Leaf (lazy 2 (\<lambda>c. Return (Num 2))))])]"



definition resolving :: state where
  \<comment> \<open>a container in which the key \<open>a\<close> is being resolved\<close>
  "resolving = \<lparr>objs = [[(''a'', Fn (lazy 1 (\<lambda>c. get c ''a'' Return)))]],
                 nodes = [\<lparr>ptarget = [(''a'', Requested)], pmodule = 0, pcontainer = None, ppath = None\<rparr>],
                 calls = []\<rparr>"

definition throwsString :: mtree where
  \<comment> \<open>\<^verbatim>\<open>{a: () => { throw 'boom' }}\<close>\<close>
  "throwsString = Group [(''a'', Leaf (lazy 1 (\<lambda>c. Throw (Str ''boom''))))]"

definition injected :: "mtree list \<Rightarrow> state" where
  \<comment> \<open>the state after \<^verbatim>\<open>inject\<close> of the literals, called in the initial state\<close>
  "injected ms = (case injectLiterals 5 ms init of Some (r, s) \<Rightarrow> s | None \<Rightarrow> init)"







section \<open>The merged tree of the description\<close>

text \<open>
  The merge rule as the description words it, on module trees: key by key over the
  later module, a group met by a group is merged recursively, and any other entry of the
  later module replaces what the earlier one has at that key (or is added).
  \<open>spec_mergeAll\<close> folds the modules in their order, starting from the empty module.
\<close>

fun spec_merge :: "(key \<times> mtree) list \<Rightarrow> (key \<times> mtree) list \<Rightarrow> (key \<times> mtree) list" where
  "spec_merge target [] = target"
| "spec_merge target ((k, v) # source) =
     spec_merge
       (AList.update k
          (case (map_of target k, v) of
             (Some (Group tg), Group sg) \<Rightarrow> Group (spec_merge tg sg)
           | _ \<Rightarrow> v)
          target)
       source"

definition spec_mergeAll :: "(key \<times> mtree) list list \<Rightarrow> (key \<times> mtree) list" where
  "spec_mergeAll modules = foldl spec_merge [] modules"

text \<open>
  \<open>denotes h v t\<close>: on the heap \<open>h\<close> the value \<open>v\<close> is the tree \<open>t\<close>, key by key and
  in the same order.
\<close>

fun denotes :: "obj list \<Rightarrow> mval \<Rightarrow> mtree \<Rightarrow> bool"
  and denotesE :: "obj list \<Rightarrow> obj \<Rightarrow> (key \<times> mtree) list \<Rightarrow> bool" where
  "denotes h (Fn f) (Leaf g) = (f = g)"
| "denotes h (Obj a) (Group kvs) = (a < length h \<and> denotesE h (h ! a) kvs)"
| "denotes h (Fn f) (Group kvs) = False"
| "denotes h (Obj a) (Leaf g) = False"
| "denotesE h [] [] = True"
| "denotesE h (e # es) (kv # kvs) = (fst e = fst kv \<and> denotes h (snd e) (snd kv) \<and> denotesE h es kvs)"
| "denotesE h [] (kv # kvs) = False"
| "denotesE h (e # es) [] = False"

text \<open>
  An object has each key once, so a module literal is a tree with distinct keys at every
  level; \<open>depthE\<close> is the nesting depth of its groups.
\<close>

fun wfT :: "mtree \<Rightarrow> bool" and wfE :: "(key \<times> mtree) list \<Rightarrow> bool" where
  "wfT (Leaf f) = True"
| "wfT (Group kvs) = wfE kvs"
| "wfE [] = True"
| "wfE (kv # kvs) = (fst kv \<notin> fst ` set kvs \<and> wfT (snd kv) \<and> wfE kvs)"

fun depthT :: "mtree \<Rightarrow> nat" and depthE :: "(key \<times> mtree) list \<Rightarrow> nat" where
  "depthT (Leaf f) = 0"
| "depthT (Group kvs) = Suc (depthE kvs)"
| "depthE [] = 0"
| "depthE (kv # kvs) = max (depthT (snd kv)) (depthE kvs)"

section \<open>Separated representations\<close>

text \<open>
  \<open>repV h v t A\<close>: the value \<open>v\<close> is the tree \<open>t\<close> on the heap \<open>h\<close>, the objects it is made
  of are those at the addresses \<open>A\<close>, and none of them occurs twice in it.  The relations of
  this section serve the proofs about \<^verbatim>\<open>merge\<close>, which updates its target in place.
\<close>

inductive repV :: "obj list \<Rightarrow> mval \<Rightarrow> mtree \<Rightarrow> nat set \<Rightarrow> bool"
  and repE :: "obj list \<Rightarrow> obj \<Rightarrow> (key \<times> mtree) list \<Rightarrow> nat set \<Rightarrow> bool"
  for h :: "obj list" where
  leaf: "repV h (Fn f) (Leaf f) {}"
| group: "a < length h \<Longrightarrow> repE h (h ! a) kvs A \<Longrightarrow> a \<notin> A \<Longrightarrow> repV h (Obj a) (Group kvs) (insert a A)"
| nil: "repE h [] [] {}"
| cons: "repV h mv t A \<Longrightarrow> repE h es kvs B \<Longrightarrow> A \<inter> B = {} \<Longrightarrow>
         repE h ((k, mv) # es) ((k, t) # kvs) (A \<union> B)"

definition refill :: "obj list \<Rightarrow> obj \<Rightarrow> (key \<times> mtree) list \<Rightarrow> nat set \<Rightarrow> key \<Rightarrow> nat \<Rightarrow> nat set \<Rightarrow> bool" where
  \<comment> \<open>the entry at key \<open>k\<close> may be exchanged: a new representation of the object \<open>a\<close> gives one of the whole\<close>
  "refill h es kvs A k a Ak \<longleftrightarrow>
     (\<forall>h1 tnew Anew X.
        length h1 = length h \<longrightarrow> (\<forall>x. x \<notin> Ak \<union> X \<longrightarrow> h1 ! x = h ! x) \<longrightarrow>
        repV h1 (Obj a) tnew Anew \<longrightarrow> Anew \<subseteq> Ak \<union> X \<longrightarrow> X \<inter> A = {} \<longrightarrow>
        (\<exists>A'. repE h1 es (AList.update k tnew kvs) A' \<and> A' \<subseteq> A \<union> X))"

definition mergeStep ::
  "(nat \<Rightarrow> nat \<Rightarrow> state \<Rightarrow> (nat \<times> state) option) \<Rightarrow> nat \<Rightarrow> nat \<Rightarrow> key \<Rightarrow> state \<Rightarrow> unit result" where
  \<comment> \<open>the callback of \<^verbatim>\<open>forEach\<close> in \<^verbatim>\<open>merge\<close>, with the recursive call as a parameter\<close>
  "mergeStep rec target source key s =
     (let sourceValue = map_of (objs s ! source) key;
          targetValue = map_of (objs s ! target) key
      in if isObj sourceValue \<and> isObj targetValue
         then (case (targetValue, sourceValue) of
                 (Some (Obj tv), Some (Obj sv)) \<Rightarrow>
                   (case rec tv sv s of
                      None \<Rightarrow> None
                    | Some (r, s') \<Rightarrow> Some (Inr (), setKey target key (Obj r) s'))
               | _ \<Rightarrow> Some (Inr (), s))
         else (case sourceValue of
                 Some v \<Rightarrow> Some (Inr (), setKey target key v s)
               | None \<Rightarrow> Some (Inr (), s)))"

definition unchanged :: "nat set \<Rightarrow> state \<Rightarrow> state \<Rightarrow> bool" where
  \<comment> \<open>only the objects at the addresses \<open>X\<close> may differ\<close>
  "unchanged X s s' \<longleftrightarrow>
     (\<forall>x. x \<notin> X \<longrightarrow> objs s' ! x = objs s ! x) \<and> length (objs s') = length (objs s)
     \<and> nodes s' = nodes s \<and> calls s' = calls s"

definition mergesTo :: "nat \<Rightarrow> bool" where
  \<comment> \<open>with the budget \<open>n\<close>, \<^verbatim>\<open>merge\<close> returns its target, which then is the merged tree\<close>
  "mergesTo n \<longleftrightarrow>
     (\<forall>tv sv s Tg Sg A B.
        repV (objs s) (Obj tv) (Group Tg) A \<longrightarrow> repV (objs s) (Obj sv) (Group Sg) B \<longrightarrow>
        A \<inter> B = {} \<longrightarrow> wfE Sg \<longrightarrow> depthE Sg < n \<longrightarrow>
        (\<exists>s' A'. merge n tv sv s = Some (tv, s')
                 \<and> repV (objs s') (Obj tv) (Group (spec_merge Tg Sg)) A' \<and> A' \<subseteq> A \<union> B
                 \<and> unchanged (A \<union> B) s s'))"

definition grown :: "nat set \<Rightarrow> state \<Rightarrow> state \<Rightarrow> bool" where
  \<comment> \<open>objects were allocated, and of the old ones only those at \<open>X\<close> may differ\<close>
  "grown X s s' \<longleftrightarrow>
     length (objs s) \<le> length (objs s')
     \<and> (\<forall>x<length (objs s). x \<notin> X \<longrightarrow> objs s' ! x = objs s ! x)
     \<and> nodes s' = nodes s \<and> calls s' = calls s"

text \<open>\<open>repM h as kvss A\<close>: the objects at \<open>as\<close> are the modules \<open>kvss\<close>, and share nothing.\<close>

inductive repM :: "obj list \<Rightarrow> nat list \<Rightarrow> (key \<times> mtree) list list \<Rightarrow> nat set \<Rightarrow> bool"
  for h :: "obj list" where
  none: "repM h [] [] {}"
| more: "repV h (Obj a) (Group kvs) A \<Longrightarrow> repM h as kvss B \<Longrightarrow> A \<inter> B = {} \<Longrightarrow>
         repM h (a # as) (kvs # kvss) (A \<union> B)"

definition mergeAll :: "nat \<Rightarrow> nat list \<Rightarrow> state \<Rightarrow> (nat \<times> state) option" where
  \<comment> \<open>\<^verbatim>\<open>modules.reduce(merge, {})\<close>, the first step of \<^verbatim>\<open>inject\<close>\<close>
  "mergeAll n modules s = (let (acc, s0) = newObj s in reduce (merge n) modules acc s0)"

definition groupX2 :: mtree where
  \<comment> \<open>\<^verbatim>\<open>{a: {x: () => 2}}\<close>\<close>
  "groupX2 = Group [(''a'', Group [(''x'', Leaf (lazy 2 (\<lambda>c. Return (Num 2))))])]"

fun entries :: "mtree \<Rightarrow> (key \<times> mtree) list" where
  \<comment> \<open>the entries of a module\<close>
  "entries (Group kvs) = kvs"
| "entries (Leaf f) = []"



section \<open>Evaluation\<close>

lemmas eval_defs =
  andThen_def attempt_def injectLiterals_def lazy_def get_def init_def inject_def newObj_def
  setKey_def proxify_def keys_def isObj_def trap_get_def resolve_def invoke_def setProp_def
  truthy_def isError_def cycleDetected_def constructionFailure_def Let_def eager_def
  trap_has_def trap_ownKeys_def trap_getOwnPropertyDescriptor_def forIn_def cellAt_def croot_def
  callsFor_def callsOf_def inObject_def objectPrototype_def

lemma resolve_own:
  \<comment> \<open>a name that is not in the cache object is in the module only as a key of its own\<close>
  "\<not> inObject ob prop \<Longrightarrow> inObject m prop \<Longrightarrow> map_of m prop \<noteq> None"
  by (auto simp: inObject_def keys_def map_of_eq_None_iff)

lemma inObject_lookup:
  "inObject ob prop \<longleftrightarrow> map_of ob prop \<noteq> None \<or> prop \<in> set objectPrototype"
  by (simp add: inObject_def keys_def map_of_eq_None_iff)

lemma resolve_alt:
  "resolve rd p prop module container parentPath s =
     (let path = (if truthy parentPath then ''.'' else '''') @ prop in
      case map_of (ptarget (nodes s ! p)) prop of
        Some c \<Rightarrow>
          (case c of
             Requested \<Rightarrow> Some (Inl (cycleDetected path), s)
           | Stored v \<Rightarrow>
               if isError v then Some (Inl (constructionFailure path), s)
               else Some (Inr v, s))
      | None \<Rightarrow>
          if prop \<in> set objectPrototype then Some (Inr (Inherited prop), s)
          else
          (case map_of (objs s ! module) prop of
             Some value \<Rightarrow>
               (let s1 = setProp p prop Requested s in
                case value of
                  Fn f \<Rightarrow>
                    (case invoke f container (Some (p, prop)) rd s1 of
                       None \<Rightarrow> None
                     | Some (Inr v, s2) \<Rightarrow> Some (Inr v, setProp p prop (Stored v) s2)
                     | Some (Inl error, s2) \<Rightarrow>
                         Some (Inl error,
                               setProp p prop (Stored (if isError error then error else Undefined)) s2))
                | Obj g \<Rightarrow>
                    (let (q, s2) = proxify g (Some container)
                                     (Some (if path \<noteq> [] then ''.'' else '''')) s1
                     in Some (Inr (Proxy q), setProp p prop (Stored (Proxy q)) s2)))
           | None \<Rightarrow> Some (Inr Undefined, s)))"
proof (cases "map_of (ptarget (nodes s ! p)) prop")
  case None
  show ?thesis
  proof (cases "prop \<in> set objectPrototype")
    case True
    with None show ?thesis by (simp add: resolve_def inObject_lookup Let_def)
  next
    case False
    with None show ?thesis
      by (cases "map_of (objs s ! module) prop") (simp_all add: resolve_def inObject_lookup Let_def)
  qed
next
  case (Some c)
  then show ?thesis by (simp add: resolve_def inObject_lookup Let_def)
qed

section \<open>Monotonicity of the resolver\<close>

lemma extI:
  assumes "objs s' = objs s" "length (nodes s) \<le> length (nodes s')"
    "\<And>p. p < length (nodes s) \<Longrightarrow> pmodule (nodes s' ! p) = pmodule (nodes s ! p)"
    "\<And>p. p < length (nodes s) \<Longrightarrow> pcontainer (nodes s' ! p) = pcontainer (nodes s ! p)"
    "\<And>p. p < length (nodes s) \<Longrightarrow> ppath (nodes s' ! p) = ppath (nodes s ! p)"
    "\<And>p k c. p < length (nodes s) \<Longrightarrow> cellAt s p k = Some c \<Longrightarrow> cellAt s' p k = Some c"
    "\<And>q. length (nodes s) \<le> q \<Longrightarrow> q < length (nodes s') \<Longrightarrow> \<exists>p<length (nodes s). croot s' q = croot s p"
    "calls s' = calls s @ new" "\<And>e. e \<in> set new \<Longrightarrow> fresh s s' e"
  shows "ext s s'"
  unfolding ext_def using assms by blast

lemma ext_objs: "ext s s' \<Longrightarrow> objs s' = objs s"
  and ext_len: "ext s s' \<Longrightarrow> length (nodes s) \<le> length (nodes s')"
  and ext_module: "ext s s' \<Longrightarrow> p < length (nodes s) \<Longrightarrow> pmodule (nodes s' ! p) = pmodule (nodes s ! p)"
  and ext_container: "ext s s' \<Longrightarrow> p < length (nodes s) \<Longrightarrow> pcontainer (nodes s' ! p) = pcontainer (nodes s ! p)"
  and ext_path: "ext s s' \<Longrightarrow> p < length (nodes s) \<Longrightarrow> ppath (nodes s' ! p) = ppath (nodes s ! p)"
  and ext_cell: "ext s s' \<Longrightarrow> p < length (nodes s) \<Longrightarrow> cellAt s p k = Some c \<Longrightarrow> cellAt s' p k = Some c"
  and ext_new: "ext s s' \<Longrightarrow> length (nodes s) \<le> q \<Longrightarrow> q < length (nodes s') \<Longrightarrow> \<exists>p<length (nodes s). croot s' q = croot s p"
  and ext_calls: "ext s s' \<Longrightarrow> \<exists>new. calls s' = calls s @ new \<and> (\<forall>e\<in>set new. fresh s s' e)"
  unfolding ext_def by blast+

lemma ext_refl: "ext s s"
  by (rule extI[where new="[]"]) auto

lemma croot_ext: "ext s s' \<Longrightarrow> p < length (nodes s) \<Longrightarrow> croot s' p = croot s p"
  by (simp add: croot_def ext_container)

lemma ext_cell_None:
  assumes "ext s s'" "p < length (nodes s)" "cellAt s' p k = None"
  shows "cellAt s p k = None"
proof (cases "cellAt s p k")
  case (Some c)
  with assms have "cellAt s' p k = Some c" by (simp add: ext_cell)
  with assms show ?thesis by simp
qed simp

lemma fresh_trans1:
  assumes a: "ext s s'" and b: "ext s' s''" and f: "fresh s s' e"
  shows "fresh s s'' e"
proof -
  from f obtain q k where qk: "site e = Some (q, k)" "q < length (nodes s')"
    "q < length (nodes s) \<longrightarrow> cellAt s q k = None" "ctx e = Proxy (croot s' q)"
    unfolding fresh_def by blast
  have "q < length (nodes s'')" using qk(2) ext_len[OF b] by simp
  moreover have "ctx e = Proxy (croot s'' q)" using qk croot_ext[OF b] by simp
  ultimately show ?thesis unfolding fresh_def using qk by blast
qed

lemma fresh_trans2:
  assumes a: "ext s s'" and b: "ext s' s''" and f: "fresh s' s'' e"
  shows "fresh s s'' e"
proof -
  from f obtain q k where qk: "site e = Some (q, k)" "q < length (nodes s'')"
    "q < length (nodes s') \<longrightarrow> cellAt s' q k = None" "ctx e = Proxy (croot s'' q)"
    unfolding fresh_def by blast
  have "q < length (nodes s) \<longrightarrow> cellAt s q k = None"
  proof
    assume q: "q < length (nodes s)"
    then have "q < length (nodes s')" using ext_len[OF a] by simp
    with qk have "cellAt s' q k = None" by simp
    then show "cellAt s q k = None" using ext_cell_None[OF a q] by simp
  qed
  then show ?thesis unfolding fresh_def using qk by blast
qed

lemma ext_trans:
  assumes a: "ext s s'" and b: "ext s' s''"
  shows "ext s s''"
proof -
  from ext_calls[OF a] obtain n1 where n1: "calls s' = calls s @ n1" "\<forall>e\<in>set n1. fresh s s' e"
    by blast
  from ext_calls[OF b] obtain n2 where n2: "calls s'' = calls s' @ n2" "\<forall>e\<in>set n2. fresh s' s'' e"
    by blast
  have len: "length (nodes s) \<le> length (nodes s')" "length (nodes s') \<le> length (nodes s'')"
    using a b by (simp_all add: ext_len)
  show ?thesis
  proof (rule extI[where new="n1 @ n2"])
    show "objs s'' = objs s" using a b by (simp add: ext_objs)
    show "length (nodes s) \<le> length (nodes s'')" using len by simp
    show "calls s'' = calls s @ n1 @ n2" using n1 n2 by simp
  next
    fix p assume p: "p < length (nodes s)"
    then have p': "p < length (nodes s')" using len by simp
    show "pmodule (nodes s'' ! p) = pmodule (nodes s ! p)"
      using ext_module[OF a p] ext_module[OF b p'] by simp
    show "pcontainer (nodes s'' ! p) = pcontainer (nodes s ! p)"
      using ext_container[OF a p] ext_container[OF b p'] by simp
    show "ppath (nodes s'' ! p) = ppath (nodes s ! p)"
      using ext_path[OF a p] ext_path[OF b p'] by simp
  next
    fix p k c assume p: "p < length (nodes s)" and c: "cellAt s p k = Some c"
    then have p': "p < length (nodes s')" using len by simp
    show "cellAt s'' p k = Some c"
      using ext_cell[OF b p' ext_cell[OF a p c]] .
  next
    fix q assume q: "length (nodes s) \<le> q" "q < length (nodes s'')"
    show "\<exists>p<length (nodes s). croot s'' q = croot s p"
    proof (cases "q < length (nodes s')")
      case True
      then have "croot s'' q = croot s' q" using b by (simp add: croot_ext)
      moreover from ext_new[OF a q(1) True] have "\<exists>p<length (nodes s). croot s' q = croot s p" .
      ultimately show ?thesis by simp
    next
      case False
      then have "length (nodes s') \<le> q" by simp
      from ext_new[OF b this q(2)] obtain p' where p': "p' < length (nodes s')" "croot s'' q = croot s' p'"
        by blast
      show ?thesis
      proof (cases "p' < length (nodes s)")
        case True
        then have "croot s' p' = croot s p'" using a by (simp add: croot_ext)
        with p' True show ?thesis by auto
      next
        case False
        then have "length (nodes s) \<le> p'" by simp
        from ext_new[OF a this p'(1)] show ?thesis using p' by simp
      qed
    qed
  next
    fix e assume "e \<in> set (n1 @ n2)"
    then consider "e \<in> set n1" | "e \<in> set n2" by auto
    then show "fresh s s'' e"
    proof cases
      case 1 then show ?thesis using fresh_trans1[OF a b] n1 by blast
    next
      case 2 then show ?thesis using fresh_trans2[OF a b] n2 by blast
    qed
  qed
qed

lemma setProp_simps [simp]:
  "objs (setProp p k c s) = objs s"
  "calls (setProp p k c s) = calls s"
  "length (nodes (setProp p k c s)) = length (nodes s)"
  by (simp_all add: setProp_def)

lemma nth_setProp:
  "nodes (setProp p k c s) ! q =
     (if q = p \<and> p < length (nodes s)
      then (nodes s ! p)\<lparr>ptarget := AList.update k c (ptarget (nodes s ! p))\<rparr>
      else nodes s ! q)"
  by (cases "p < length (nodes s)") (auto simp: setProp_def nth_list_update list_update_beyond)

lemma setProp_node [simp]:
  "pmodule (nodes (setProp p k c s) ! q) = pmodule (nodes s ! q)"
  "pcontainer (nodes (setProp p k c s) ! q) = pcontainer (nodes s ! q)"
  "ppath (nodes (setProp p k c s) ! q) = ppath (nodes s ! q)"
  by (simp_all add: nth_setProp)

lemma croot_setProp [simp]: "croot (setProp p k c s) q = croot s q"
  by (simp add: croot_def)

lemma cellAt_setProp:
  "p < length (nodes s) \<Longrightarrow>
   cellAt (setProp p k c s) q k' = (if q = p \<and> k' = k then Some c else cellAt s q k')"
  by (simp add: cellAt_def nth_setProp update_conv')

lemma cellAt_setProp_other:
  "q \<noteq> p \<or> k' \<noteq> k \<Longrightarrow> cellAt (setProp p k c s) q k' = cellAt s q k'"
  by (auto simp add: cellAt_def nth_setProp update_conv')

text \<open>The state after storing the result at an entry that was empty before the call.\<close>

lemma ext_store:
  assumes p: "p < length (nodes s)" and empty: "cellAt s p k = None"
    and e0: "site e0 = Some (p, k)" "ctx e0 = Proxy (croot s p)"
    and mid: "ext ((setProp p k Requested s)\<lparr>calls := calls s @ [e0]\<rparr>) s2"
  shows "ext s (setProp p k c s2)"
proof -
  let ?s1 = "(setProp p k Requested s)\<lparr>calls := calls s @ [e0]\<rparr>"
  have n1: "length (nodes ?s1) = length (nodes s)" by simp
  have cell1: "\<And>q k'. cellAt ?s1 q k' = cellAt (setProp p k Requested s) q k'"
    by (simp add: cellAt_def)
  have croot1: "\<And>q. croot ?s1 q = croot s q" by (simp add: croot_def)
  have node1: "\<And>q. pmodule (nodes ?s1 ! q) = pmodule (nodes s ! q)"
    "\<And>q. pcontainer (nodes ?s1 ! q) = pcontainer (nodes s ! q)"
    "\<And>q. ppath (nodes ?s1 ! q) = ppath (nodes s ! q)" by simp_all
  from ext_calls[OF mid] obtain new where new: "calls s2 = (calls s @ [e0]) @ new"
    "\<forall>e\<in>set new. fresh ?s1 s2 e" by auto
  have len2: "length (nodes s) \<le> length (nodes s2)" using ext_len[OF mid] by simp
  then have p2: "p < length (nodes s2)" using p by simp
  show ?thesis
  proof (rule extI[where new="e0 # new"])
    show "objs (setProp p k c s2) = objs s" using ext_objs[OF mid] by simp
    show "length (nodes s) \<le> length (nodes (setProp p k c s2))" using len2 by simp
    show "calls (setProp p k c s2) = calls s @ e0 # new" using new by simp
  next
    fix q assume q: "q < length (nodes s)"
    then have q1: "q < length (nodes ?s1)" by simp
    show "pmodule (nodes (setProp p k c s2) ! q) = pmodule (nodes s ! q)"
      using ext_module[OF mid q1] node1 by simp
    show "pcontainer (nodes (setProp p k c s2) ! q) = pcontainer (nodes s ! q)"
      using ext_container[OF mid q1] node1 by simp
    show "ppath (nodes (setProp p k c s2) ! q) = ppath (nodes s ! q)"
      using ext_path[OF mid q1] node1 by simp
  next
    fix q k' c' assume q: "q < length (nodes s)" and c': "cellAt s q k' = Some c'"
    then have q1: "q < length (nodes ?s1)" by simp
    from c' empty have ne: "q \<noteq> p \<or> k' \<noteq> k" by auto
    then have "cellAt ?s1 q k' = Some c'" using c' by (simp add: cell1 cellAt_setProp_other)
    from ext_cell[OF mid q1 this] have "cellAt s2 q k' = Some c'" .
    then show "cellAt (setProp p k c s2) q k' = Some c'" using ne by (simp add: cellAt_setProp_other)
  next
    fix q assume q: "length (nodes s) \<le> q" "q < length (nodes (setProp p k c s2))"
    then have "length (nodes ?s1) \<le> q" "q < length (nodes s2)" by simp_all
    from ext_new[OF mid this] show "\<exists>r<length (nodes s). croot (setProp p k c s2) q = croot s r"
      by (simp add: croot1)
  next
    fix e assume "e \<in> set (e0 # new)"
    then consider "e = e0" | "e \<in> set new" by auto
    then show "fresh s (setProp p k c s2) e"
    proof cases
      case 1
      have "croot s2 p = croot s p" using croot_ext[OF mid, of p] p by (simp add: croot1)
      then show ?thesis unfolding fresh_def using 1 e0 p p2 empty by simp
    next
      case 2
      with new have "fresh ?s1 s2 e" by blast
      then obtain q k' where qk: "site e = Some (q, k')" "q < length (nodes s2)"
        "q < length (nodes ?s1) \<longrightarrow> cellAt ?s1 q k' = None" "ctx e = Proxy (croot s2 q)"
        unfolding fresh_def by blast
      have "q < length (nodes s) \<longrightarrow> cellAt s q k' = None"
      proof
        assume q: "q < length (nodes s)"
        with qk have none: "cellAt (setProp p k Requested s) q k' = None" by (simp add: cell1)
        then have "q \<noteq> p \<or> k' \<noteq> k" using p by (auto simp: cellAt_setProp)
        then show "cellAt s q k' = None" using none by (simp add: cellAt_setProp_other)
      qed
      then show ?thesis unfolding fresh_def using qk by simp
    qed
  qed
qed

lemma ext_log:
  assumes "site e0 = Some (p, k)" "ctx e0 = Proxy (croot s p)" "p < length (nodes s)" "cellAt s p k = None"
  shows "ext s (s\<lparr>calls := calls s @ [e0]\<rparr>)"
proof (rule extI[where new="[e0]"])
  fix e assume "e \<in> set [e0]"
  then have "e = e0" by simp
  then show "fresh s (s\<lparr>calls := calls s @ [e0]\<rparr>) e"
    unfolding fresh_def using assms by (simp add: croot_def)
qed (simp_all add: cellAt_def croot_def)

lemma run_ext:
  assumes rd: "\<And>v k s r s'. rd v k s = Some (r, s') \<Longrightarrow> ext s s'"
  shows "run b rd s = Some (r, s') \<Longrightarrow> ext s s'"
proof (induction b arbitrary: s)
  case (Return v) then show ?case by (simp add: ext_refl)
next
  case (Throw v) then show ?case by (simp add: ext_refl)
next
  case (Read v k cont)
  from Read.prems obtain r1 s1 where r1: "rd v k s = Some (r1, s1)" "run (cont r1) rd s1 = Some (r, s')"
    by (auto split: option.splits)
  have "ext s s1" using rd r1(1) .
  moreover have "ext s1 s'" using Read.IH r1(2) by blast
  ultimately show ?case by (rule ext_trans)
qed

lemma proxify_simps [simp]:
  "fst (proxify g c pa s) = length (nodes s)"
  "objs (snd (proxify g c pa s)) = objs s"
  "calls (snd (proxify g c pa s)) = calls s"
  "nodes (snd (proxify g c pa s)) = nodes s @ [\<lparr>ptarget = [], pmodule = g, pcontainer = c, ppath = pa\<rparr>]"
  by (simp_all add: proxify_def)

lemma ext_group:
  assumes p: "p < length (nodes s)" and empty: "cellAt s p k = None"
  shows "ext s (setProp p k c (snd (proxify g (Some (croot s p)) pa (setProp p k c0 s))))"
    (is "ext s ?s'")
proof (rule extI[where new="[]"])
  let ?s1 = "setProp p k c0 s"
  let ?s2 = "snd (proxify g (Some (croot s p)) pa ?s1)"
  have nth2: "\<And>q. q < length (nodes s) \<Longrightarrow> nodes ?s2 ! q = nodes ?s1 ! q"
    by (simp add: nth_append)
  show "objs ?s' = objs s" by simp
  show "length (nodes s) \<le> length (nodes ?s')" by simp
  show "calls ?s' = calls s @ []" by simp
  show "\<And>e. e \<in> set [] \<Longrightarrow> fresh s ?s' e" by simp
  show "\<And>q. q < length (nodes s) \<Longrightarrow> pmodule (nodes ?s' ! q) = pmodule (nodes s ! q)"
    by (simp add: nth_append)
  show "\<And>q. q < length (nodes s) \<Longrightarrow> pcontainer (nodes ?s' ! q) = pcontainer (nodes s ! q)"
    by (simp add: nth_append)
  show "\<And>q. q < length (nodes s) \<Longrightarrow> ppath (nodes ?s' ! q) = ppath (nodes s ! q)"
    by (simp add: nth_append)
  show "\<And>q k' c'. q < length (nodes s) \<Longrightarrow> cellAt s q k' = Some c' \<Longrightarrow> cellAt ?s' q k' = Some c'"
  proof -
    fix q k' c' assume q: "q < length (nodes s)" and c': "cellAt s q k' = Some c'"
    from c' empty have ne: "q \<noteq> p \<or> k' \<noteq> k" by auto
    have "cellAt ?s' q k' = cellAt ?s2 q k'" using ne by (rule cellAt_setProp_other)
    also have "\<dots> = cellAt ?s1 q k'" using q by (simp add: cellAt_def nth_append)
    also have "\<dots> = cellAt s q k'" using ne by (rule cellAt_setProp_other)
    finally show "cellAt ?s' q k' = Some c'" using c' by simp
  qed
  show "\<And>q. length (nodes s) \<le> q \<Longrightarrow> q < length (nodes ?s') \<Longrightarrow>
          \<exists>r<length (nodes s). croot ?s' q = croot s r"
  proof -
    fix q assume "length (nodes s) \<le> q" "q < length (nodes ?s')"
    then have q: "q = length (nodes s)" by simp
    have "croot ?s' q = croot s p" by (simp add: q croot_def nth_append)
    then show "\<exists>r<length (nodes s). croot ?s' q = croot s r" using p by blast
  qed
qed

lemma resolve_ext:
  assumes rd: "\<And>v k s r s'. rd v k s = Some (r, s') \<Longrightarrow> ext s s'"
    and p: "p < length (nodes s)"
    and res: "resolve rd p k m (croot s p) pp s = Some (r, s')"
  shows "ext s s'"
proof (cases "cellAt s p k")
  case (Some c)
  then have "s' = s" using res
    by (auto simp: resolve_alt cellAt_def Let_def split: cell.splits if_splits)
  then show ?thesis by (simp add: ext_refl)
next
  case None
  show ?thesis
  proof (cases "k \<in> set objectPrototype \<or> map_of (objs s ! m) k = None")
    case True
    then have "s' = s" using res None
      by (auto simp: resolve_alt cellAt_def Let_def split: if_splits)
    then show ?thesis by (simp add: ext_refl)
  next
    case False
    then have nin: "k \<notin> set objectPrototype" by simp
    from False obtain mv where Some: "map_of (objs s ! m) k = Some mv" by auto
    show ?thesis
    proof (cases mv)
      case (Fn f)
      let ?e0 = "\<lparr>callee = fid f, ctx = Proxy (croot s p), site = Some (p, k)\<rparr>"
      let ?s1 = "(setProp p k Requested s)\<lparr>calls := calls s @ [?e0]\<rparr>"
      have "\<exists>x s2 c. run (body f (Proxy (croot s p))) rd ?s1 = Some (x, s2) \<and> s' = setProp p k c s2"
        using res None Some Fn nin
        by (auto simp: resolve_alt cellAt_def Let_def invoke_def split: option.splits sum.splits)
      then obtain x s2 where
        run: "run (body f (Proxy (croot s p))) rd ?s1 = Some (x, s2)"
        and s': "\<exists>c. s' = setProp p k c s2"
        by blast
      have "ext ?s1 s2" using run_ext[OF rd run] .
      then have "\<And>c. ext s (setProp p k c s2)"
        using ext_store[OF p None, of ?e0] by simp
      then show ?thesis using s' by blast
    next
      case (Obj g)
      from res None Some Obj nin obtain pa where
        "s' = setProp p k (Stored (Proxy (length (nodes s))))
                 (snd (proxify g (Some (croot s p)) pa (setProp p k Requested s)))"
        by (auto simp: resolve_alt cellAt_def Let_def split_beta)
      then show ?thesis using ext_group[OF p None] by simp
    qed
  qed
qed

lemma trap_get_ext:
  assumes rd: "\<And>v k s r s'. rd v k s = Some (r, s') \<Longrightarrow> ext s s'"
    and p: "p < length (nodes s)"
    and res: "trap_get rd p k s = Some (r, s')"
  shows "ext s s'"
proof -
  from res have 1: "resolve rd p k (pmodule (nodes s ! p)) (croot s p) (ppath (nodes s ! p)) s = Some (r, s')"
    by (simp add: trap_get_def croot_def)
  show ?thesis by (rule resolve_ext[of rd, OF _ p 1]) (rule rd)
qed

lemma readProp_ext: "readProp n v k s = Some (r, s') \<Longrightarrow> ext s s'"
proof (induction n arbitrary: v k s r s')
  case 0
  then show ?case by simp
next
  case (Suc n)
  show ?case
  proof (cases v)
    case (Proxy p)
    show ?thesis
    proof (cases "p < length (nodes s)")
      case True
      with Suc.prems Proxy have 1: "trap_get (readProp n) p k s = Some (r, s')" by simp
      show ?thesis by (rule trap_get_ext[of "readProp n", OF _ True 1]) (rule Suc.IH)
    next
      case False
      with Suc.prems Proxy show ?thesis by (simp add: ext_refl)
    qed
  qed (use Suc.prems in \<open>auto simp: ext_refl\<close>)
qed

lemma reads_ext: "reads n ops s = Some s' \<Longrightarrow> ext s s'"
proof (induction ops arbitrary: s)
  case Nil
  then show ?case by (simp add: ext_refl)
next
  case (Cons x xs)
  then obtain r s1 where 1: "readProp n (fst x) (snd x) s = Some (r, s1)" "reads n xs s1 = Some s'"
    by (auto split: option.splits)
  show ?case using ext_trans[OF readProp_ext[OF 1(1)] Cons.IH[OF 1(2)]] .
qed

lemma ext_callsFor:
  assumes e: "ext s s'" and p: "p < length (nodes s)" and c: "cellAt s p k \<noteq> None"
  shows "callsFor p k s' = callsFor p k s"
proof -
  from ext_calls[OF e] obtain new where new: "calls s' = calls s @ new" "\<forall>e\<in>set new. fresh s s' e"
    by blast
  have "\<And>e. e \<in> set new \<Longrightarrow> site e \<noteq> Some (p, k)"
  proof
    fix e assume "e \<in> set new" "site e = Some (p, k)"
    with new have "fresh s s' e" by blast
    then have "cellAt s p k = None" using \<open>site e = Some (p, k)\<close> p unfolding fresh_def by auto
    with c show False by simp
  qed
  then have "filter (\<lambda>e. site e = Some (p, k)) new = []" by (simp add: filter_empty_conv)
  then show ?thesis using new by (simp add: callsFor_def)
qed

text \<open>The first access to an empty entry whose module entry is a factory.\<close>

lemma first_access:
  assumes p: "p < length (nodes s)" and empty: "cellAt s p k = None"
    and nin: "k \<notin> set objectPrototype"
    and fac: "map_of (objs s ! pmodule (nodes s ! p)) k = Some (Fn f)"
    and inv: "invoke f (croot s p) (Some (p, k)) (readProp n) (setProp p k Requested s) = Some (x, s2)"
  shows "readProp (Suc n) (Proxy p) k s =
           Some (x, setProp p k (Stored (case x of Inr v \<Rightarrow> v
                                          | Inl e \<Rightarrow> if isError e then e else Undefined)) s2)"
    and "p < length (nodes s2)"
    and "callsFor p k s2 = callsFor p k s @ [\<lparr>callee = fid f, ctx = Proxy (croot s p), site = Some (p, k)\<rparr>]"
proof -
  let ?e0 = "\<lparr>callee = fid f, ctx = Proxy (croot s p), site = Some (p, k)\<rparr>"
  let ?s1 = "(setProp p k Requested s)\<lparr>calls := calls s @ [?e0]\<rparr>"
  show "readProp (Suc n) (Proxy p) k s =
           Some (x, setProp p k (Stored (case x of Inr v \<Rightarrow> v
                                          | Inl e \<Rightarrow> if isError e then e else Undefined)) s2)"
    using p empty nin fac inv
    by (cases x) (simp_all add: trap_get_def resolve_alt cellAt_def croot_def Let_def)
  have run: "run (body f (Proxy (croot s p))) (readProp n) ?s1 = Some (x, s2)"
    using inv by (simp add: invoke_def)
  have mid: "ext ?s1 s2" by (rule run_ext[OF _ run]) (rule readProp_ext)
  have p1: "p < length (nodes ?s1)" using p by simp
  show "p < length (nodes s2)" using ext_len[OF mid] p by simp
  have "cellAt ?s1 p k = Some Requested" using p by (simp add: cellAt_def nth_setProp update_conv')
  then have "callsFor p k s2 = callsFor p k ?s1" using ext_callsFor[OF mid p1] by simp
  then show "callsFor p k s2 = callsFor p k s @ [?e0]" by (simp add: callsFor_def)
qed

text \<open>A stored value stays, is answered without any call, and no later read calls the factory.\<close>

lemma stored_stable:
  assumes p: "p < length (nodes s1)" and st: "cellAt s1 p k = Some (Stored v)"
    and later: "reads m ops s1 = Some s'"
  shows "readProp (Suc j) (Proxy p) k s' =
           Some (if isError v
                 then Inl (constructionFailure ((if truthy (ppath (nodes s1 ! p)) then ''.'' else '''') @ k))
                 else Inr v, s')"
    and "callsFor p k s' = callsFor p k s1"
proof -
  have e: "ext s1 s'" using reads_ext[OF later] .
  have p': "p < length (nodes s')" using ext_len[OF e] p by simp
  have "cellAt s' p k = Some (Stored v)" using ext_cell[OF e p st] .
  moreover have "ppath (nodes s' ! p) = ppath (nodes s1 ! p)" using ext_path[OF e p] .
  ultimately show "readProp (Suc j) (Proxy p) k s' =
           Some (if isError v
                 then Inl (constructionFailure ((if truthy (ppath (nodes s1 ! p)) then ''.'' else '''') @ k))
                 else Inr v, s')"
    using p' by (simp add: trap_get_def resolve_alt cellAt_def Let_def)
  show "callsFor p k s' = callsFor p k s1" using ext_callsFor[OF e p] st by simp
qed

lemma callsFor_setProp [simp]: "callsFor p k (setProp q k' c s) = callsFor p k s"
  by (simp add: callsFor_def)






lemma setKey_simps [simp]: "nodes (setKey a k v s) = nodes s" "calls (setKey a k v s) = calls s"
  by (simp_all add: setKey_def)






section \<open>Refinement of the merge\<close>

lemma spec_merge_example:
  "spec_merge [(''a'', Group [(''x'', Leaf (lazy 1 Return))])] [(''a'', Group [(''y'', Leaf (lazy 2 Return))]), (''b'', Leaf (lazy 3 Return))] = [(''a'', Group [(''x'', Leaf (lazy 1 Return)), (''y'', Leaf (lazy 2 Return))]), (''b'', Leaf (lazy 3 Return))]"
  by simp

lemma rep_bound:
  "repV h v t A \<Longrightarrow> \<forall>a\<in>A. a < length h"
  "repE h es kvs A \<Longrightarrow> \<forall>a\<in>A. a < length h"
  by (induction rule: repV_repE.inducts) auto

lemma rep_frame:
  "repV h v t A \<Longrightarrow> length h' = length h \<Longrightarrow> (\<forall>a\<in>A. h' ! a = h ! a) \<Longrightarrow> repV h' v t A"
  "repE h es kvs A \<Longrightarrow> length h' = length h \<Longrightarrow> (\<forall>a\<in>A. h' ! a = h ! a) \<Longrightarrow> repE h' es kvs A"
proof (induction rule: repV_repE.inducts)
  case (leaf f)
  show ?case by (rule repV_repE.leaf)
next
  case (group a kvs A)
  have 1: "a < length h'" using group by simp
  have "repE h' (h ! a) kvs A" using group by simp
  moreover have "h' ! a = h ! a" using group.prems by simp
  ultimately have 2: "repE h' (h' ! a) kvs A" by simp
  show ?case using repV_repE.group[OF 1 2 \<open>a \<notin> A\<close>] .
next
  case nil
  show ?case by (rule repV_repE.nil)
next
  case (cons mv t A es kvs B k)
  have "repV h' mv t A" "repE h' es kvs B" using cons by simp_all
  then show ?case using \<open>A \<inter> B = {}\<close> by (rule repV_repE.cons)
qed

lemma repE_keys_aux:
  "repV h v t A \<Longrightarrow> True"
  "repE h es kvs A \<Longrightarrow> map fst es = map fst kvs"
  by (induction rule: repV_repE.inducts) auto

lemmas repE_keys = repE_keys_aux(2)

lemma rep_denotes:
  "repV h v t A \<Longrightarrow> denotes h v t"
  "repE h es kvs A \<Longrightarrow> denotesE h es kvs"
  by (induction rule: repV_repE.inducts) auto

lemma repE_Nil [simp]: "repE h [] kvs A \<longleftrightarrow> kvs = [] \<and> A = {}"
  by (auto elim: repE.cases intro: repV_repE.nil)

lemma repE_ConsE:
  assumes "repE h (e # es) kvs C"
  obtains t kvs' A B where "kvs = (fst e, t) # kvs'" "repV h (snd e) t A" "repE h es kvs' B"
    "A \<inter> B = {}" "C = A \<union> B"
  using assms by (cases rule: repE.cases) auto

lemma repV_ObjE:
  assumes "repV h (Obj a) t C"
  obtains kvs A where "t = Group kvs" "a < length h" "repE h (h ! a) kvs A" "a \<notin> A" "C = insert a A"
  using assms by (cases rule: repV.cases) auto

lemma repV_FnE:
  assumes "repV h (Fn f) t C"
  obtains "t = Leaf f" "C = {}"
  using assms by (cases rule: repV.cases) auto

text \<open>Looking a key up in an object and in the tree it represents.\<close>

lemma repE_lookup_None_aux:
  "repV h v t A \<Longrightarrow> True"
  "repE h es kvs A \<Longrightarrow> (map_of es k = None) = (map_of kvs k = None)"
  by (induction rule: repV_repE.inducts) auto

lemmas repE_lookup_None = repE_lookup_None_aux(2)

lemma repE_lookup_Some_aux:
  "repV h v t A \<Longrightarrow> True"
  "repE h es kvs A \<Longrightarrow> map_of es k = Some mv \<longrightarrow>
     (\<exists>t B. map_of kvs k = Some t \<and> repV h mv t B \<and> B \<subseteq> A)"
proof (induction rule: repV_repE.inducts)
  case (cons mv' t A es kvs B k')
  show ?case
  proof (cases "k = k'")
    case True
    have "repV h mv' t A" by fact
    with True show ?thesis by auto
  next
    case False
    have "map_of es k = Some mv \<longrightarrow> (\<exists>t C. map_of kvs k = Some t \<and> repV h mv t C \<and> C \<subseteq> B)"
      by fact
    with False show ?thesis by auto
  qed
qed auto

lemma repE_lookup_Some:
  "repE h es kvs A \<Longrightarrow> map_of es k = Some mv \<Longrightarrow>
     \<exists>t B. map_of kvs k = Some t \<and> repV h mv t B \<and> B \<subseteq> A"
  using repE_lookup_Some_aux(2) by blast

lemma repE_update_aux:
  "repV h v t A \<Longrightarrow> True"
  "repE h es kvs A \<Longrightarrow> repV h mv tnew Bk \<longrightarrow> Bk \<inter> A = {} \<longrightarrow>
     (\<exists>A'. repE h (AList.update k mv es) (AList.update k tnew kvs) A' \<and> A' \<subseteq> A \<union> Bk)"
proof (induction rule: repV_repE.inducts)
  case nil
  show ?case
  proof (intro impI)
    assume r: "repV h mv tnew Bk"
    have "repE h ((k, mv) # []) ((k, tnew) # []) (Bk \<union> {})"
      by (rule repV_repE.cons[OF r repV_repE.nil]) simp
    then show "\<exists>A'. repE h (AList.update k mv []) (AList.update k tnew []) A' \<and> A' \<subseteq> {} \<union> Bk"
      by auto
  qed
next
  case (cons mv' t' A1 es kvs B1 k')
  have head: "repV h mv' t' A1" and tail: "repE h es kvs B1" and dis: "A1 \<inter> B1 = {}" by fact+
  have IH: "repV h mv tnew Bk \<longrightarrow> Bk \<inter> B1 = {} \<longrightarrow>
     (\<exists>A'. repE h (AList.update k mv es) (AList.update k tnew kvs) A' \<and> A' \<subseteq> B1 \<union> Bk)" by fact
  show ?case
  proof (intro impI)
    assume r: "repV h mv tnew Bk" and d: "Bk \<inter> (A1 \<union> B1) = {}"
    show "\<exists>A'. repE h (AList.update k mv ((k', mv') # es)) (AList.update k tnew ((k', t') # kvs)) A'
            \<and> A' \<subseteq> A1 \<union> B1 \<union> Bk"
    proof (cases "k = k'")
      case True
      have "Bk \<inter> B1 = {}" using d by auto
      from repV_repE.cons[OF r tail this, of k] show ?thesis using True by auto
    next
      case False
      from IH r d obtain B' where B': "repE h (AList.update k mv es) (AList.update k tnew kvs) B'"
        "B' \<subseteq> B1 \<union> Bk" by auto
      have "A1 \<inter> B' = {}" using B'(2) dis d by auto
      from repV_repE.cons[OF head B'(1) this, of k'] show ?thesis using False B'(2) by auto
    qed
  qed
qed auto

lemma repE_update:
  "repE h es kvs A \<Longrightarrow> repV h mv tnew Bk \<Longrightarrow> Bk \<inter> A = {} \<Longrightarrow>
     \<exists>A'. repE h (AList.update k mv es) (AList.update k tnew kvs) A' \<and> A' \<subseteq> A \<union> Bk"
  using repE_update_aux(2) by blast

lemma refillD:
  assumes "refill h es kvs A k a Ak" "length h1 = length h" "\<forall>x. x \<notin> Ak \<union> X \<longrightarrow> h1 ! x = h ! x"
    "repV h1 (Obj a) tnew Anew" "Anew \<subseteq> Ak \<union> X" "X \<inter> A = {}"
  shows "\<exists>A'. repE h1 es (AList.update k tnew kvs) A' \<and> A' \<subseteq> A \<union> X"
proof -
  from assms(1) have "length h1 = length h \<longrightarrow> (\<forall>x. x \<notin> Ak \<union> X \<longrightarrow> h1 ! x = h ! x) \<longrightarrow>
        repV h1 (Obj a) tnew Anew \<longrightarrow> Anew \<subseteq> Ak \<union> X \<longrightarrow> X \<inter> A = {} \<longrightarrow>
        (\<exists>A'. repE h1 es (AList.update k tnew kvs) A' \<and> A' \<subseteq> A \<union> X)"
    unfolding refill_def by (elim allE)
  with assms(2-) show ?thesis by (elim impE) assumption+
qed

lemma repE_replace_aux:
  "repV h v t A \<Longrightarrow> True"
  "repE h es kvs A \<Longrightarrow> map_of es k = Some (Obj a) \<longrightarrow>
     (\<exists>Tg Ak. map_of kvs k = Some (Group Tg) \<and> repV h (Obj a) (Group Tg) Ak \<and> Ak \<subseteq> A
               \<and> refill h es kvs A k a Ak)"
proof (induction rule: repV_repE.inducts)
  case (cons mv' t' A1 es kvs B1 k')
  have head: "repV h mv' t' A1" and tail: "repE h es kvs B1" and dis: "A1 \<inter> B1 = {}" by fact+
  have IH: "map_of es k = Some (Obj a) \<longrightarrow>
     (\<exists>Tg Ak. map_of kvs k = Some (Group Tg) \<and> repV h (Obj a) (Group Tg) Ak \<and> Ak \<subseteq> B1
               \<and> refill h es kvs B1 k a Ak)" by fact
  show ?case
  proof (intro impI)
    assume m: "map_of ((k', mv') # es) k = Some (Obj a)"
    show "\<exists>Tg Ak. map_of ((k', t') # kvs) k = Some (Group Tg) \<and> repV h (Obj a) (Group Tg) Ak
                   \<and> Ak \<subseteq> A1 \<union> B1 \<and> refill h ((k', mv') # es) ((k', t') # kvs) (A1 \<union> B1) k a Ak"
    proof (cases "k = k'")
      case True
      with m have mv': "mv' = Obj a" by simp
      with head obtain Tg where t': "t' = Group Tg" by (auto elim: repV_ObjE)
      have "refill h ((k', mv') # es) ((k', t') # kvs) (A1 \<union> B1) k a A1"
        unfolding refill_def
      proof (intro allI impI)
        fix h1 tnew Anew X
        assume len: "length h1 = length h" and fr: "\<forall>x. x \<notin> A1 \<union> X \<longrightarrow> h1 ! x = h ! x"
          and new: "repV h1 (Obj a) tnew Anew" and sub: "Anew \<subseteq> A1 \<union> X" and X: "X \<inter> (A1 \<union> B1) = {}"
        have "\<forall>x\<in>B1. h1 ! x = h ! x" using fr dis X by auto
        from rep_frame(2)[OF tail len this] have tail1: "repE h1 es kvs B1" .
        have "Anew \<inter> B1 = {}" using sub dis X by auto
        from repV_repE.cons[OF new tail1 this, of k]
        show "\<exists>A'. repE h1 ((k', mv') # es) (AList.update k tnew ((k', t') # kvs)) A' \<and> A' \<subseteq> A1 \<union> B1 \<union> X"
          using True mv' sub by auto
      qed
      moreover have "map_of ((k', t') # kvs) k = Some (Group Tg)" using True t' by simp
      moreover have "repV h (Obj a) (Group Tg) A1" using head mv' t' by simp
      moreover have "A1 \<subseteq> A1 \<union> B1" by simp
      ultimately show ?thesis by (intro exI[of _ Tg] exI[of _ A1] conjI)
    next
      case False
      with m have "map_of es k = Some (Obj a)" by simp
      with IH obtain Tg Ak where g: "map_of kvs k = Some (Group Tg)" "repV h (Obj a) (Group Tg) Ak"
        "Ak \<subseteq> B1" "refill h es kvs B1 k a Ak" by auto
      have "refill h ((k', mv') # es) ((k', t') # kvs) (A1 \<union> B1) k a Ak"
        unfolding refill_def
      proof (intro allI impI)
        fix h1 tnew Anew X
        assume len: "length h1 = length h" and fr: "\<forall>x. x \<notin> Ak \<union> X \<longrightarrow> h1 ! x = h ! x"
          and new: "repV h1 (Obj a) tnew Anew" and sub: "Anew \<subseteq> Ak \<union> X" and X: "X \<inter> (A1 \<union> B1) = {}"
        have "X \<inter> B1 = {}" using X by auto
        from refillD[OF g(4) len fr new sub this]
        obtain B' where B': "repE h1 es (AList.update k tnew kvs) B'" "B' \<subseteq> B1 \<union> X"
          by (elim exE conjE)
        have "\<forall>x\<in>A1. h1 ! x = h ! x" using fr dis X g(3) by auto
        from rep_frame(1)[OF head len this] have head1: "repV h1 mv' t' A1" .
        have "A1 \<inter> B' = {}" using B'(2) dis X by auto
        from repV_repE.cons[OF head1 B'(1) this, of k']
        show "\<exists>A'. repE h1 ((k', mv') # es) (AList.update k tnew ((k', t') # kvs)) A' \<and> A' \<subseteq> A1 \<union> B1 \<union> X"
          using False B'(2) by auto
      qed
      moreover have "map_of ((k', t') # kvs) k = Some (Group Tg)" using False g(1) by simp
      moreover have "Ak \<subseteq> A1 \<union> B1" using g(3) by auto
      ultimately show ?thesis using g(2) by (intro exI[of _ Tg] exI[of _ Ak] conjI)
    qed
  qed
qed auto

lemma repE_replace:
  assumes "repE h es kvs A" "map_of es k = Some (Obj a)"
  obtains Tg Ak where "map_of kvs k = Some (Group Tg)" "repV h (Obj a) (Group Tg) Ak" "Ak \<subseteq> A"
    "refill h es kvs A k a Ak"
  using repE_replace_aux(2)[OF assms(1)] assms(2) by blast

lemma repE_lookup_Fn:
  assumes "repE h es kvs A" "map_of es k = Some (Fn f)"
  shows "map_of kvs k = Some (Leaf f)"
  using repE_lookup_Some[OF assms] by (auto elim: repV_FnE)

lemma merge_Suc:
  "merge (Suc n) target source s =
     (case forEach (keys (objs s ! source)) (mergeStep (merge n) target source) s of
        None \<Rightarrow> None
      | Some (r, s') \<Rightarrow> Some (target, s'))"
  unfolding mergeStep_def by simp

lemma mergeStep_both:
  "map_of (objs s ! src) k = Some (Obj sv) \<Longrightarrow> map_of (objs s ! t) k = Some (Obj tv) \<Longrightarrow>
   mergeStep rec t src k s =
     (case rec tv sv s of None \<Rightarrow> None | Some (r, s') \<Rightarrow> Some (Inr (), setKey t k (Obj r) s'))"
  by (simp add: mergeStep_def isObj_def)

lemma mergeStep_other:
  "map_of (objs s ! src) k = Some mv \<Longrightarrow> \<not> (isObj (Some mv) \<and> isObj (map_of (objs s ! t) k)) \<Longrightarrow>
   mergeStep rec t src k s = Some (Inr (), setKey t k mv s)"
  by (auto simp add: mergeStep_def Let_def)

lemma unchangedD:
  "unchanged X s s' \<Longrightarrow> x \<notin> X \<Longrightarrow> objs s' ! x = objs s ! x"
  "unchanged X s s' \<Longrightarrow> length (objs s') = length (objs s)"
  "unchanged X s s' \<Longrightarrow> nodes s' = nodes s"
  "unchanged X s s' \<Longrightarrow> calls s' = calls s"
  by (simp_all add: unchanged_def)

lemma unchanged_trans:
  "unchanged X s s1 \<Longrightarrow> unchanged Y s1 s2 \<Longrightarrow> X \<subseteq> Z \<Longrightarrow> Y \<subseteq> Z \<Longrightarrow> unchanged Z s s2"
  unfolding unchanged_def by (simp add: subset_iff) metis

lemma unchanged_refl: "unchanged X s s"
  by (simp add: unchanged_def)

lemma unchanged_setKey:
  assumes "t \<in> X"
  shows "unchanged X s (setKey t k v s)"
proof -
  have "(objs s)[t := e] ! x = objs s ! x" if "x \<notin> X" for x e
  proof -
    from that assms have "t \<noteq> x" by auto
    then show ?thesis by simp
  qed
  then show ?thesis by (simp add: unchanged_def setKey_def)
qed

lemma setKey_triv:
  assumes "map_of (objs s ! t) k = Some v"
  shows "setKey t k v s = s"
proof -
  have "AList.update k v (objs s ! t) = objs s ! t" using assms by (rule update_triv)
  then show ?thesis by (simp add: setKey_def)
qed

lemma objs_setKey:
  "t < length (objs s) \<Longrightarrow> objs (setKey t k v s) ! t = AList.update k v (objs s ! t)"
  by (simp add: setKey_def)

lemma wfE_distinct: "wfE kvs \<Longrightarrow> distinct (map fst kvs)"
  by (induction kvs) auto

lemma repV_Group:
  assumes "repV h mv (Group sg) B"
  obtains a where "mv = Obj a"
  using assms by (cases rule: repV.cases) auto

lemma rep_isObj:
  assumes "repE h es T A" and "map_of T k = Some (Group tg)"
  shows "isObj (map_of es k)"
proof -
  from repE_lookup_None[OF assms(1), of k] assms(2) obtain mv where mv: "map_of es k = Some mv"
    by auto
  from repE_lookup_Some[OF assms(1) mv] assms(2) obtain B where "repV h mv (Group tg) B" by auto
  then obtain a where "mv = Obj a" by (rule repV_Group)
  with mv show ?thesis by (simp add: isObj_def)
qed

lemma mergesToD:
  assumes "mergesTo n" "repV (objs s) (Obj tv) (Group Tg) A" "repV (objs s) (Obj sv) (Group Sg) B"
    "A \<inter> B = {}" "wfE Sg" "depthE Sg < n"
  obtains s' A' where "merge n tv sv s = Some (tv, s')"
    "repV (objs s') (Obj tv) (Group (spec_merge Tg Sg)) A'" "A' \<subseteq> A \<union> B" "unchanged (A \<union> B) s s'"
proof -
  from assms(1) have "repV (objs s) (Obj tv) (Group Tg) A \<longrightarrow> repV (objs s) (Obj sv) (Group Sg) B \<longrightarrow>
        A \<inter> B = {} \<longrightarrow> wfE Sg \<longrightarrow> depthE Sg < n \<longrightarrow>
        (\<exists>s' A'. merge n tv sv s = Some (tv, s')
                 \<and> repV (objs s') (Obj tv) (Group (spec_merge Tg Sg)) A' \<and> A' \<subseteq> A \<union> B
                 \<and> unchanged (A \<union> B) s s')"
    unfolding mergesTo_def by (elim allE)
  with assms(2-) have "\<exists>s' A'. merge n tv sv s = Some (tv, s')
                 \<and> repV (objs s') (Obj tv) (Group (spec_merge Tg Sg)) A' \<and> A' \<subseteq> A \<union> B
                 \<and> unchanged (A \<union> B) s s'"
    by (elim impE) assumption+
  then show thesis using that by (elim exE conjE)
qed

lemma merge_loop:
  assumes IH: "mergesTo n"
  shows "repE (objs s) rest S' B \<Longrightarrow> repE (objs s) (objs s ! t) T A \<Longrightarrow> t < length (objs s) \<Longrightarrow>
    t \<noteq> src \<Longrightarrow> t \<notin> A \<Longrightarrow> t \<notin> B \<Longrightarrow> src \<notin> A \<Longrightarrow> src \<notin> B \<Longrightarrow> A \<inter> B = {} \<Longrightarrow>
    objs s ! src = es \<Longrightarrow> (\<forall>e\<in>set rest. map_of es (fst e) = Some (snd e)) \<Longrightarrow>
    wfE S' \<Longrightarrow> depthE S' \<le> n \<Longrightarrow>
    \<exists>s' A'. forEach (map fst rest) (mergeStep (merge n) t src) s = Some (Inr (), s')
           \<and> repE (objs s') (objs s' ! t) (spec_merge T S') A' \<and> A' \<subseteq> A \<union> B
           \<and> unchanged (insert t (A \<union> B)) s s'"
proof (induction rest arbitrary: s S' B T A)
  case Nil
  then have "S' = []" by simp
  with Nil show ?case by (auto simp: unchanged_refl)
next
  case (Cons e rest')
  let ?h = "objs s"
  let ?f = "mergeStep (merge n) t src"
  have tgt: "repE ?h (?h ! t) T A" and tlen: "t < length ?h" and ts: "t \<noteq> src"
    and tA: "t \<notin> A" and tB: "t \<notin> B" and sA: "src \<notin> A" and sB: "src \<notin> B" and AB: "A \<inter> B = {}"
    and es: "?h ! src = es" and wf: "wfE S'" and dp: "depthE S' \<le> n"
    using Cons.prems by blast+
  have look: "\<forall>e\<in>set (e # rest'). map_of es (fst e) = Some (snd e)" using Cons.prems by blast
  obtain k mv where e: "e = (k, mv)" by (cases e)
  from Cons.prems(1) obtain tk S'' Bk Br where S': "S' = (k, tk) # S''"
    and hd: "repV ?h mv tk Bk" and tl: "repE ?h rest' S'' Br" and dis: "Bk \<inter> Br = {}"
    and B: "B = Bk \<union> Br"
    unfolding e by (auto elim: repE_ConsE)
  have wf'': "wfE S''" and wftk: "wfT tk" using wf S' by auto
  have dp'': "depthE S'' \<le> n" and dptk: "depthT tk \<le> n" using dp S' by auto
  have srcv: "map_of (objs s ! src) k = Some mv" using look es e by simp
  have look': "\<forall>e\<in>set rest'. map_of es (fst e) = Some (snd e)" using look by simp
  show ?case
  proof (cases "isObj (Some mv) \<and> isObj (map_of (?h ! t) k)")
    case True
    then obtain sv tv where mv: "mv = Obj sv" and tv: "map_of (?h ! t) k = Some (Obj tv)"
      by (auto simp: isObj_def split: option.splits mval.splits)
    from hd obtain Sg where tkG: "tk = Group Sg" unfolding mv by (auto elim: repV_ObjE)
    from repE_replace[OF tgt tv] obtain Tg Ak where Tk: "map_of T k = Some (Group Tg)"
      and rt: "repV ?h (Obj tv) (Group Tg) Ak" and Ak: "Ak \<subseteq> A" and rf: "refill ?h (?h ! t) T A k tv Ak"
      by blast
    have rs: "repV ?h (Obj sv) (Group Sg) Bk" using hd mv tkG by simp
    have d1: "Ak \<inter> Bk = {}" using Ak AB B by auto
    have wfSg: "wfE Sg" using wftk tkG by simp
    have dpSg: "depthE Sg < n" using dptk tkG by simp
    from mergesToD[OF IH rt rs d1 wfSg dpSg] obtain s1 A1 where
      m1: "merge n tv sv s = Some (tv, s1)"
      and r1: "repV (objs s1) (Obj tv) (Group (spec_merge Tg Sg)) A1"
      and A1: "A1 \<subseteq> Ak \<union> Bk" and u1: "unchanged (Ak \<union> Bk) s s1" by blast
    have len1: "length (objs s1) = length ?h" using u1 by (rule unchangedD)
    have t1: "objs s1 ! t = ?h ! t" using unchangedD(1)[OF u1, of t] tA tB Ak B by auto
    have src1: "objs s1 ! src = es" using unchangedD(1)[OF u1, of src] sA sB Ak B es by auto
    have "setKey t k (Obj tv) s1 = s1" by (rule setKey_triv) (simp add: t1 tv)
    then have step: "?f k s = Some (Inr (), s1)"
      using mergeStep_both[OF _ tv, of src sv "merge n"] srcv mv m1 by simp
    have fr: "\<forall>x. x \<notin> Ak \<union> Bk \<longrightarrow> objs s1 ! x = ?h ! x" using unchangedD(1)[OF u1] by blast
    have XA: "Bk \<inter> A = {}" using AB B by auto
    from refillD[OF rf len1 fr r1 A1 XA] obtain A' where
      rA': "repE (objs s1) (?h ! t) (AList.update k (Group (spec_merge Tg Sg)) T) A'"
      and A': "A' \<subseteq> A \<union> Bk" by blast
    have "\<forall>a\<in>Br. objs s1 ! a = ?h ! a" using fr dis Ak AB B by auto
    from rep_frame(2)[OF tl len1 this] have tl1: "repE (objs s1) rest' S'' Br" .
    have tgt1: "repE (objs s1) (objs s1 ! t) (AList.update k (Group (spec_merge Tg Sg)) T) A'"
      using rA' t1 by simp
    have c1: "t < length (objs s1)" using tlen len1 by simp
    have c2: "t \<notin> A'" using A' tA tB B by auto
    have c3: "t \<notin> Br" using tB B by auto
    have c4: "src \<notin> A'" using A' sA sB B by auto
    have c5: "src \<notin> Br" using sB B by auto
    have c6: "A' \<inter> Br = {}" using A' AB B dis by auto
    from Cons.IH[OF tl1 tgt1 c1 ts c2 c3 c4 c5 c6 src1 look' wf'' dp'']
    obtain s' A'' where f': "forEach (map fst rest') ?f s1 = Some (Inr (), s')"
      and r': "repE (objs s') (objs s' ! t) (spec_merge (AList.update k (Group (spec_merge Tg Sg)) T) S'') A''"
      and A'': "A'' \<subseteq> A' \<union> Br" and u': "unchanged (insert t (A' \<union> Br)) s1 s'" by blast
    have f: "forEach (map fst (e # rest')) ?f s = Some (Inr (), s')"
      using step f' e by simp
    have sp: "spec_merge T S' = spec_merge (AList.update k (Group (spec_merge Tg Sg)) T) S''"
      using S' tkG Tk by simp
    have sub: "A'' \<subseteq> A \<union> B" using A'' A' B by auto
    have "unchanged (insert t (A \<union> B)) s s'"
    proof (rule unchanged_trans[OF u1 u'])
      show "Ak \<union> Bk \<subseteq> insert t (A \<union> B)" using Ak B by auto
      show "insert t (A' \<union> Br) \<subseteq> insert t (A \<union> B)" using A' B by auto
    qed
    with f r' sp sub show ?thesis by (intro exI[of _ s'] exI[of _ A'']) simp
  next
    case False
    let ?s1 = "setKey t k mv s"
    have step: "?f k s = Some (Inr (), ?s1)" by (rule mergeStep_other[OF srcv False])
    have u1: "unchanged (insert t (A \<union> B)) s ?s1" by (rule unchanged_setKey) simp
    have len1: "length (objs ?s1) = length ?h" using u1 by (rule unchangedD)
    have t1: "objs ?s1 ! t = AList.update k mv (?h ! t)" using tlen by (rule objs_setKey)
    have src1: "objs ?s1 ! src = es" using ts es by (simp add: setKey_def)
    have fr: "\<forall>x. x \<noteq> t \<longrightarrow> objs ?s1 ! x = ?h ! x" by (simp add: setKey_def)
    have XA: "Bk \<inter> A = {}" using AB B by auto
    from repE_update[OF tgt hd XA, of k] obtain A' where
      rA': "repE ?h (AList.update k mv (?h ! t)) (AList.update k tk T) A'"
      and A': "A' \<subseteq> A \<union> Bk" by blast
    have c2: "t \<notin> A'" using A' tA tB B by auto
    then have "\<forall>a\<in>A'. objs ?s1 ! a = ?h ! a" using fr by auto
    from rep_frame(2)[OF rA' len1 this] t1
    have tgt1: "repE (objs ?s1) (objs ?s1 ! t) (AList.update k tk T) A'" by simp
    have c3: "t \<notin> Br" using tB B by auto
    then have "\<forall>a\<in>Br. objs ?s1 ! a = ?h ! a" using fr by auto
    from rep_frame(2)[OF tl len1 this] have tl1: "repE (objs ?s1) rest' S'' Br" .
    have c1: "t < length (objs ?s1)" using tlen len1 by simp
    have c4: "src \<notin> A'" using A' sA sB B by auto
    have c5: "src \<notin> Br" using sB B by auto
    have c6: "A' \<inter> Br = {}" using A' AB B dis by auto
    from Cons.IH[OF tl1 tgt1 c1 ts c2 c3 c4 c5 c6 src1 look' wf'' dp'']
    obtain s' A'' where f': "forEach (map fst rest') ?f ?s1 = Some (Inr (), s')"
      and r': "repE (objs s') (objs s' ! t) (spec_merge (AList.update k tk T) S'') A''"
      and A'': "A'' \<subseteq> A' \<union> Br" and u': "unchanged (insert t (A' \<union> Br)) ?s1 s'" by blast
    have f: "forEach (map fst (e # rest')) ?f s = Some (Inr (), s')"
      using step f' e by simp
    have nb: "\<not> ((\<exists>tg. map_of T k = Some (Group tg)) \<and> (\<exists>sg. tk = Group sg))"
    proof
      assume a: "(\<exists>tg. map_of T k = Some (Group tg)) \<and> (\<exists>sg. tk = Group sg)"
      then obtain tg sg where tg: "map_of T k = Some (Group tg)" and sg: "tk = Group sg" by blast
      from rep_isObj[OF tgt tg] have "isObj (map_of (?h ! t) k)" .
      moreover from hd sg obtain a where "mv = Obj a" by (auto elim: repV_Group)
      then have "isObj (Some mv)" by (simp add: isObj_def)
      ultimately show False using False by simp
    qed
    have cs: "(case (map_of T k, tk) of (Some (Group tg), Group sg) \<Rightarrow> Group (spec_merge tg sg) | _ \<Rightarrow> tk) = tk"
      using nb by (auto split: option.splits mtree.splits)
    have sp: "spec_merge T S' = spec_merge (AList.update k tk T) S''"
      unfolding S' spec_merge.simps cs ..
    have sub: "A'' \<subseteq> A \<union> B" using A'' A' B by auto
    have "unchanged (insert t (A \<union> B)) s s'"
    proof (rule unchanged_trans[OF u1 u'])
      show "insert t (A \<union> B) \<subseteq> insert t (A \<union> B)" by simp
      show "insert t (A' \<union> Br) \<subseteq> insert t (A \<union> B)" using A' B by auto
    qed
    with f r' sp sub show ?thesis by (intro exI[of _ s'] exI[of _ A'']) simp
  qed
qed

lemma map_of_distinct_all:
  "distinct (map fst es) \<Longrightarrow> \<forall>e\<in>set es. map_of es (fst e) = Some (snd e)"
  by (auto intro: map_of_is_SomeI)

lemma merge_refines_aux: "mergesTo n"
proof (induction n)
  case 0
  show ?case by (simp add: mergesTo_def)
next
  case (Suc n)
  show ?case
    unfolding mergesTo_def
  proof (intro allI impI)
    fix tv sv and s :: state and Tg Sg A B
    assume rt: "repV (objs s) (Obj tv) (Group Tg) A" and rs: "repV (objs s) (Obj sv) (Group Sg) B"
      and AB: "A \<inter> B = {}" and wf: "wfE Sg" and dp: "depthE Sg < Suc n"
    from rt obtain A0 where tlen: "tv < length (objs s)" and rt0: "repE (objs s) (objs s ! tv) Tg A0"
      and tA0: "tv \<notin> A0" and A: "A = insert tv A0" by (auto elim: repV_ObjE)
    from rs obtain B0 where slen: "sv < length (objs s)" and rs0: "repE (objs s) (objs s ! sv) Sg B0"
      and sB0: "sv \<notin> B0" and B: "B = insert sv B0" by (auto elim: repV_ObjE)
    have ts: "tv \<noteq> sv" using AB A B by auto
    have c1: "tv \<notin> B0" using AB A B by auto
    have c2: "sv \<notin> A0" using AB A B by auto
    have c3: "A0 \<inter> B0 = {}" using AB A B by auto
    have "distinct (map fst (objs s ! sv))" using repE_keys[OF rs0] wfE_distinct[OF wf] by simp
    then have look: "\<forall>e\<in>set (objs s ! sv). map_of (objs s ! sv) (fst e) = Some (snd e)"
      by (rule map_of_distinct_all)
    have dp': "depthE Sg \<le> n" using dp by simp
    have es: "objs s ! sv = objs s ! sv" by simp
    from merge_loop[OF Suc rs0 rt0 tlen ts tA0 c1 c2 sB0 c3 es look wf dp']
    obtain s' A' where f: "forEach (map fst (objs s ! sv)) (mergeStep (merge n) tv sv) s = Some (Inr (), s')"
      and r: "repE (objs s') (objs s' ! tv) (spec_merge Tg Sg) A'" and A': "A' \<subseteq> A0 \<union> B0"
      and u: "unchanged (insert tv (A0 \<union> B0)) s s'" by blast
    have m: "merge (Suc n) tv sv s = Some (tv, s')" unfolding merge_Suc keys_def f by simp
    have len: "tv < length (objs s')" using tlen unchangedD(2)[OF u] by simp
    have "tv \<notin> A'" using A' tA0 c1 by auto
    from repV_repE.group[OF len r this]
    have r': "repV (objs s') (Obj tv) (Group (spec_merge Tg Sg)) (insert tv A')" .
    have sub: "insert tv A' \<subseteq> A \<union> B" using A' A B by auto
    have "unchanged (A \<union> B) s s'"
      by (rule unchanged_trans[OF u unchanged_refl]) (use A B in auto)
    with m r' sub
    show "\<exists>s' A'. merge (Suc n) tv sv s = Some (tv, s')
                 \<and> repV (objs s') (Obj tv) (Group (spec_merge Tg Sg)) A' \<and> A' \<subseteq> A \<union> B
                 \<and> unchanged (A \<union> B) s s'"
      by (intro exI[of _ s'] exI[of _ "insert tv A'"]) simp
  qed
qed

lemma merge_refines:
  assumes "repV (objs s) (Obj tv) (Group Tg) A" "repV (objs s) (Obj sv) (Group Sg) B"
    "A \<inter> B = {}" "wfE Sg" "depthE Sg < n"
  obtains s' A' where "merge n tv sv s = Some (tv, s')"
    "repV (objs s') (Obj tv) (Group (spec_merge Tg Sg)) A'" "A' \<subseteq> A \<union> B" "unchanged (A \<union> B) s s'"
  using mergesToD[OF merge_refines_aux assms] by blast

lemma rep_grow:
  "repV h v t A \<Longrightarrow> length h \<le> length h' \<Longrightarrow> (\<forall>a\<in>A. h' ! a = h ! a) \<Longrightarrow> repV h' v t A"
  "repE h es kvs A \<Longrightarrow> length h \<le> length h' \<Longrightarrow> (\<forall>a\<in>A. h' ! a = h ! a) \<Longrightarrow> repE h' es kvs A"
proof (induction rule: repV_repE.inducts)
  case (leaf f)
  show ?case by (rule repV_repE.leaf)
next
  case (group a kvs A)
  have 1: "a < length h'" using group by simp
  have "repE h' (h ! a) kvs A" using group by simp
  moreover have "h' ! a = h ! a" using group.prems by simp
  ultimately have 2: "repE h' (h' ! a) kvs A" by simp
  show ?case using repV_repE.group[OF 1 2 \<open>a \<notin> A\<close>] .
next
  case nil
  show ?case by (rule repV_repE.nil)
next
  case (cons mv t A es kvs B k)
  have "repV h' mv t A" "repE h' es kvs B" using cons by simp_all
  then show ?case using \<open>A \<inter> B = {}\<close> by (rule repV_repE.cons)
qed

lemma update_fresh: "k \<notin> fst ` set al \<Longrightarrow> AList.update k v al = al @ [(k, v)]"
  by (induction al) auto

lemma grownD:
  "grown X s s' \<Longrightarrow> length (objs s) \<le> length (objs s')"
  "grown X s s' \<Longrightarrow> x < length (objs s) \<Longrightarrow> x \<notin> X \<Longrightarrow> objs s' ! x = objs s ! x"
  "grown X s s' \<Longrightarrow> nodes s' = nodes s"
  "grown X s s' \<Longrightarrow> calls s' = calls s"
  by (simp_all add: grown_def)

lemma grown_trans:
  assumes "grown X s s1" "grown Y s1 s2" "X \<subseteq> Z" "Y \<subseteq> Z"
  shows "grown Z s s2"
proof -
  have "objs s2 ! x = objs s ! x" if "x < length (objs s)" "x \<notin> Z" for x
  proof -
    have "x < length (objs s1)" using that grownD(1)[OF assms(1)] by simp
    moreover have "x \<notin> X" "x \<notin> Y" using that assms(3,4) by auto
    ultimately show ?thesis using grownD(2)[OF assms(1), of x] grownD(2)[OF assms(2), of x] that by simp
  qed
  then show ?thesis
    using grownD(1)[OF assms(1)] grownD(1)[OF assms(2)] grownD(3,4)[OF assms(1)] grownD(3,4)[OF assms(2)]
    by (simp add: grown_def)
qed

lemma literal_rep:
  "wfT t \<Longrightarrow>
     \<exists>A. repV (objs (snd (literal t s))) (fst (literal t s)) t A
        \<and> A \<subseteq> {length (objs s)..<length (objs (snd (literal t s)))}
        \<and> grown {} s (snd (literal t s))"
  "wfE kvs \<Longrightarrow> a < length (objs s) \<Longrightarrow> repE (objs s) (objs s ! a) T0 A0 \<Longrightarrow> a \<notin> A0 \<Longrightarrow>
   fst ` set kvs \<inter> fst ` set T0 = {} \<Longrightarrow>
     \<exists>A'. repE (objs (props a kvs s)) (objs (props a kvs s) ! a) (T0 @ kvs) A' \<and> a \<notin> A'
         \<and> A' \<subseteq> A0 \<union> {length (objs s)..<length (objs (props a kvs s))}
         \<and> grown {a} s (props a kvs s)"
proof (induction t s and a kvs s arbitrary: and T0 A0 rule: literal_props.induct)
  case (1 f s)
  show ?case by (auto intro: repV_repE.leaf simp: grown_def)
next
  case (2 kvs s)
  let ?a = "length (objs s)"
  let ?s0 = "s\<lparr>objs := objs s @ [[]]\<rparr>"
  let ?s' = "props ?a kvs ?s0"
  have n: "newObj s = (?a, ?s0)" by (simp add: newObj_def)
  have lit: "literal (Group kvs) s = (Obj ?a, ?s')" by (simp add: n)
  have wf: "wfE kvs" using 2 by simp
  have a0: "?a < length (objs ?s0)" by simp
  have r0: "repE (objs ?s0) (objs ?s0 ! ?a) [] {}" by simp
  have "\<exists>A'. repE (objs ?s') (objs ?s' ! ?a) ([] @ kvs) A' \<and> ?a \<notin> A'
         \<and> A' \<subseteq> {} \<union> {length (objs ?s0)..<length (objs ?s')} \<and> grown {?a} ?s0 ?s'"
    by (rule 2(1)[OF refl n[symmetric] wf a0 r0]) simp_all
  then obtain A' where r: "repE (objs ?s') (objs ?s' ! ?a) kvs A'" and aA: "?a \<notin> A'"
    and sub: "A' \<subseteq> {length (objs ?s0)..<length (objs ?s')}" and g: "grown {?a} ?s0 ?s'" by auto
  have len: "?a < length (objs ?s')" using grownD(1)[OF g] by simp
  have rv: "repV (objs ?s') (Obj ?a) (Group kvs) (insert ?a A')"
    using repV_repE.group[OF len r aA] .
  have sub': "insert ?a A' \<subseteq> {?a..<length (objs ?s')}" using sub len by auto
  have g0: "grown {?a} s ?s0" by (simp add: grown_def nth_append)
  have "grown {?a} s ?s'" by (rule grown_trans[OF g0 g]) simp_all
  then have g': "grown {} s ?s'" by (simp add: grown_def)
  show ?case unfolding lit using rv sub' g' by (intro exI[of _ "insert ?a A'"]) simp
next
  case (3 a s)
  then show ?case by (auto simp: grown_def)
next
  case (4 a k t kvs s)
  obtain v s1 where lit: "literal t s = (v, s1)" by (cases "literal t s")
  let ?s2 = "setKey a k v s1"
  let ?s' = "props a kvs ?s2"
  have pr: "props a ((k, t) # kvs) s = ?s'" by (simp add: lit)
  have wft: "wfT t" and wf: "wfE kvs" and kf: "k \<notin> fst ` set kvs" using 4(3) by auto
  have alen: "a < length (objs s)" and r0: "repE (objs s) (objs s ! a) T0 A0" and aA0: "a \<notin> A0"
    and kd: "fst ` set ((k, t) # kvs) \<inter> fst ` set T0 = {}" using 4 by blast+
  from 4(1)[OF wft] lit obtain Ak where rv: "repV (objs s1) v t Ak"
    and Ak: "Ak \<subseteq> {length (objs s)..<length (objs s1)}" and g1: "grown {} s s1" by auto
  have bound: "\<forall>x\<in>A0. x < length (objs s)" using rep_bound(2)[OF r0] .
  have le1: "length (objs s) \<le> length (objs s1)" using g1 by (rule grownD)
  have "\<forall>x\<in>A0. objs s1 ! x = objs s ! x" using bound grownD(2)[OF g1] by simp
  from rep_grow(2)[OF r0 le1 this] have r1: "repE (objs s1) (objs s ! a) T0 A0" .
  have a1: "objs s1 ! a = objs s ! a" using grownD(2)[OF g1 alen] by simp
  have d: "Ak \<inter> A0 = {}" using Ak bound by fastforce
  from repE_update[OF r1 rv d, of k] obtain A1 where
    rA1: "repE (objs s1) (AList.update k v (objs s ! a)) (AList.update k t T0) A1"
    and A1: "A1 \<subseteq> A0 \<union> Ak" by blast
  have kT: "k \<notin> fst ` set T0" using kd by auto
  have upd: "AList.update k t T0 = T0 @ [(k, t)]" using kT by (rule update_fresh)
  have alen1: "a < length (objs s1)" using alen le1 by simp
  have aAk: "a \<notin> Ak" using Ak alen by auto
  have aA1: "a \<notin> A1" using A1 aA0 aAk by auto
  have len2: "length (objs s1) \<le> length (objs ?s2)" by (simp add: setKey_def)
  have "\<forall>x\<in>A1. objs ?s2 ! x = objs s1 ! x"
  proof
    fix x assume "x \<in> A1"
    with aA1 have "a \<noteq> x" by auto
    then show "objs ?s2 ! x = objs s1 ! x" by (simp add: setKey_def)
  qed
  from rep_grow(2)[OF rA1 len2 this]
  have "repE (objs ?s2) (AList.update k v (objs s ! a)) (T0 @ [(k, t)]) A1" unfolding upd .
  moreover have "objs ?s2 ! a = AList.update k v (objs s ! a)"
    using objs_setKey[OF alen1, of k v] a1 by simp
  ultimately have r2: "repE (objs ?s2) (objs ?s2 ! a) (T0 @ [(k, t)]) A1" by simp
  have alen2: "a < length (objs ?s2)" using alen1 by (simp add: setKey_def)
  have kd2: "fst ` set kvs \<inter> fst ` set (T0 @ [(k, t)]) = {}" using kd kf by auto
  from 4(2)[OF refl lit[symmetric] wf alen2 r2 aA1 kd2] obtain A' where
    r': "repE (objs ?s') (objs ?s' ! a) ((T0 @ [(k, t)]) @ kvs) A'" and aA': "a \<notin> A'"
    and A': "A' \<subseteq> A1 \<union> {length (objs ?s2)..<length (objs ?s')}" and g2: "grown {a} ?s2 ?s'" by blast
  have l2: "length (objs ?s2) = length (objs s1)" by (simp add: setKey_def)
  have le2: "length (objs ?s2) \<le> length (objs ?s')" using g2 by (rule grownD)
  have sub: "A' \<subseteq> A0 \<union> {length (objs s)..<length (objs ?s')}"
  proof
    fix x assume "x \<in> A'"
    with A' have "x \<in> A1 \<or> x \<in> {length (objs ?s2)..<length (objs ?s')}" by auto
    then show "x \<in> A0 \<union> {length (objs s)..<length (objs ?s')}"
    proof
      assume "x \<in> A1"
      with A1 have "x \<in> A0 \<or> x \<in> Ak" by auto
      then show ?thesis using Ak le2 l2 by auto
    next
      assume "x \<in> {length (objs ?s2)..<length (objs ?s')}"
      then show ?thesis using le1 l2 by auto
    qed
  qed
  have gk: "grown {a} s1 ?s2"
  proof -
    have "objs ?s2 ! x = objs s1 ! x" if "x \<noteq> a" for x using that by (simp add: setKey_def)
    then show ?thesis by (simp add: grown_def l2)
  qed
  have "grown {a} s ?s2" by (rule grown_trans[OF g1 gk]) simp_all
  then have g: "grown {a} s ?s'" by (rule grown_trans[OF _ g2]) simp_all
  show ?case unfolding pr using r' aA' sub g by (intro exI[of _ A']) simp
qed

lemma repM_grow:
  "repM h as kvss A \<Longrightarrow> length h \<le> length h' \<Longrightarrow> (\<forall>a\<in>A. h' ! a = h ! a) \<Longrightarrow> repM h' as kvss A"
proof (induction rule: repM.induct)
  case none
  show ?case by (rule repM.none)
next
  case (more a kvs A as kvss B)
  have "repV h' (Obj a) (Group kvs) A" using rep_grow(1)[OF more(1) more(5)] more(6) by simp
  moreover have "repM h' as kvss B" using more by simp
  ultimately show ?case using \<open>A \<inter> B = {}\<close> by (rule repM.more)
qed

lemma repM_bound: "repM h as kvss A \<Longrightarrow> \<forall>a\<in>A. a < length h"
  by (induction rule: repM.induct) (use rep_bound(1) in auto)

lemma literals_rep:
  "\<forall>kvs\<in>set kvss. wfE kvs \<Longrightarrow>
   \<exists>A. repM (objs (snd (literals (map Group kvss) s))) (fst (literals (map Group kvss) s)) kvss A
      \<and> A \<subseteq> {length (objs s)..<length (objs (snd (literals (map Group kvss) s)))}
      \<and> grown {} s (snd (literals (map Group kvss) s))"
proof (induction kvss arbitrary: s)
  case Nil
  show ?case by (auto intro: repM.none simp: grown_def)
next
  case (Cons kvs kvss)
  have wf: "wfT (Group kvs)" and wfs: "\<forall>kvs\<in>set kvss. wfE kvs" using Cons.prems by auto
  obtain v s1 where lit: "literal (Group kvs) s = (v, s1)" by (cases "literal (Group kvs) s")
  from literal_rep(1)[OF wf, of s] lit obtain A where rv: "repV (objs s1) v (Group kvs) A"
    and A: "A \<subseteq> {length (objs s)..<length (objs s1)}" and g1: "grown {} s s1" by auto
  from rv obtain a where v: "v = Obj a" by (rule repV_Group)
  obtain as s' where lits: "literals (map Group kvss) s1 = (as, s')"
    by (cases "literals (map Group kvss) s1")
  from Cons.IH[OF wfs, of s1] lits obtain B where rm: "repM (objs s') as kvss B"
    and B: "B \<subseteq> {length (objs s1)..<length (objs s')}" and g2: "grown {} s1 s'" by auto
  have all: "literals (map Group (kvs # kvss)) s = (a # as, s')"
    using lit v lits by simp
  have le2: "length (objs s1) \<le> length (objs s')" using g2 by (rule grownD)
  have le1: "length (objs s) \<le> length (objs s1)" using g1 by (rule grownD)
  have "\<forall>x\<in>A. objs s' ! x = objs s1 ! x" using A grownD(2)[OF g2] by auto
  from rep_grow(1)[OF rv le2 this] have rv': "repV (objs s') (Obj a) (Group kvs) A" unfolding v .
  have d: "A \<inter> B = {}" using A B by fastforce
  have r: "repM (objs s') (a # as) (kvs # kvss) (A \<union> B)" using rv' rm d by (rule repM.more)
  have sub: "A \<union> B \<subseteq> {length (objs s)..<length (objs s')}" using A B le1 le2 by fastforce
  have g: "grown {} s s'" by (rule grown_trans[OF g1 g2]) simp_all
  show ?case unfolding all using r sub g by (intro exI[of _ "A \<union> B"]) simp
qed

lemma repM_frame:
  assumes "repM (objs s) as kvss B" "unchanged X s s'" "X \<inter> B = {}"
  shows "repM (objs s') as kvss B"
proof (rule repM_grow[OF assms(1)])
  show "length (objs s) \<le> length (objs s')" using unchangedD(2)[OF assms(2)] by simp
  show "\<forall>a\<in>B. objs s' ! a = objs s ! a" using unchangedD(1)[OF assms(2)] assms(3) by auto
qed

lemma reduce_refines:
  "repM (objs s) ms kvss B \<Longrightarrow> repV (objs s) (Obj acc) (Group T) A \<Longrightarrow> A \<inter> B = {} \<Longrightarrow>
   \<forall>kvs\<in>set kvss. wfE kvs \<and> depthE kvs < n \<Longrightarrow>
   \<exists>s' A'. reduce (merge n) ms acc s = Some (acc, s')
          \<and> repV (objs s') (Obj acc) (Group (foldl spec_merge T kvss)) A' \<and> A' \<subseteq> A \<union> B
          \<and> unchanged (A \<union> B) s s'"
proof (induction ms arbitrary: s kvss B T A)
  case Nil
  from Nil.prems(1) have "kvss = []" by (cases rule: repM.cases) auto
  with Nil show ?case by (auto simp: unchanged_refl)
next
  case (Cons m ms)
  from Cons.prems(1) obtain kvs kvss' Am Br where kvss: "kvss = kvs # kvss'"
    and rm: "repV (objs s) (Obj m) (Group kvs) Am" and rr: "repM (objs s) ms kvss' Br"
    and d: "Am \<inter> Br = {}" and B: "B = Am \<union> Br"
    by (cases rule: repM.cases) auto
  have rt: "repV (objs s) (Obj acc) (Group T) A" and AB: "A \<inter> B = {}" using Cons.prems by blast+
  have wf: "wfE kvs" and dp: "depthE kvs < n"
    and rest: "\<forall>kvs\<in>set kvss'. wfE kvs \<and> depthE kvs < n" using Cons.prems(4) kvss by auto
  have d1: "A \<inter> Am = {}" using AB B by auto
  from merge_refines[OF rt rm d1 wf dp] obtain s1 A1 where
    m1: "merge n acc m s = Some (acc, s1)"
    and r1: "repV (objs s1) (Obj acc) (Group (spec_merge T kvs)) A1"
    and A1: "A1 \<subseteq> A \<union> Am" and u1: "unchanged (A \<union> Am) s s1" by blast
  have "(A \<union> Am) \<inter> Br = {}" using AB B d by auto
  from repM_frame[OF rr u1 this] have rr1: "repM (objs s1) ms kvss' Br" .
  have d2: "A1 \<inter> Br = {}" using A1 AB B d by auto
  from Cons.IH[OF rr1 r1 d2 rest] obtain s' A' where
    f: "reduce (merge n) ms acc s1 = Some (acc, s')"
    and r': "repV (objs s') (Obj acc) (Group (foldl spec_merge (spec_merge T kvs) kvss')) A'"
    and A': "A' \<subseteq> A1 \<union> Br" and u': "unchanged (A1 \<union> Br) s1 s'" by blast
  have red: "reduce (merge n) (m # ms) acc s = Some (acc, s')" using m1 f by simp
  have sub: "A' \<subseteq> A \<union> B" using A' A1 B by auto
  have "unchanged (A \<union> B) s s'"
    by (rule unchanged_trans[OF u1 u']) (use A1 B in auto)
  with red r' sub show ?case unfolding kvss by (intro exI[of _ s'] exI[of _ A']) simp
qed

lemma inject_mergeAll:
  "inject n modules s =
     (case mergeAll n modules s of
        None \<Rightarrow> None
      | Some (module, s1) \<Rightarrow>
          (let (container, s2) = proxify module None None s1 in
           case initializeEagerServices n module container s2 of
             None \<Rightarrow> None
           | Some (Inl e, s3) \<Rightarrow> Some (Inl e, s3)
           | Some (Inr u, s3) \<Rightarrow> Some (Inr (Proxy container), s3)))"
  by (simp add: inject_def mergeAll_def split: prod.splits)

lemma spec_merge_lookup:
  "distinct (map fst S) \<Longrightarrow>
   map_of (spec_merge T S) k =
     (case map_of S k of
        None \<Rightarrow> map_of T k
      | Some v \<Rightarrow> Some (case (map_of T k, v) of
                         (Some (Group tg), Group sg) \<Rightarrow> Group (spec_merge tg sg)
                       | _ \<Rightarrow> v))"
proof (induction S arbitrary: T)
  case Nil
  show ?case by simp
next
  case (Cons e S)
  obtain k' v' where e: "e = (k', v')" by (cases e)
  have dS: "distinct (map fst S)" and k': "k' \<notin> fst ` set S" using Cons.prems e by auto
  let ?w = "case (map_of T k', v') of (Some (Group tg), Group sg) \<Rightarrow> Group (spec_merge tg sg) | _ \<Rightarrow> v'"
  have sm: "spec_merge T (e # S) = spec_merge (AList.update k' ?w T) S" unfolding e by simp
  show ?case
  proof (cases "k = k'")
    case True
    then have "map_of S k = None" using k' by (simp add: map_of_eq_None_iff)
    then show ?thesis unfolding sm Cons.IH[OF dS] using True e by (simp add: update_conv')
  next
    case False
    then have "map_of (AList.update k' ?w T) k = map_of T k" by (simp add: update_conv')
    then show ?thesis unfolding sm Cons.IH[OF dS] using False e by (simp split: option.splits)
  qed
qed

section \<open>Names of the prototype and enumeration\<close>











section \<open>Cycle detection\<close>

text \<open>
  C4.  For the module \<^verbatim>\<open>{a: (ctx) => ctx.b, b: (ctx) => ctx.a}\<close>, reading \<open>a\<close> from the
  injected container throws the error whose message is
  \<^verbatim>\<open>Cycle detected. Please make a lazy. See ...#cyclic-dependencies\<close>: it names \<open>a\<close> and
  asks to make it lazy.  In general, a call of \<^verbatim>\<open>resolve\<close> that finds the key marked as
  requested throws that error and leaves the state, and so every cache entry, as it is.
\<close>

theorem cycle_detected:
  "map_option fst (andThen (injectLiterals 3 [cyclic] init) (\<lambda>c. readProp 3 c ''a''))
     = Some (Inl (ErrorV (''Cycle detected. Please make a lazy. ''
                          @ ''See https://github.com/langium/ginject#cyclic-dependencies'') None))
   \<and> (\<forall>rd p prop module container parentPath s.
        cellAt s p prop = Some Requested \<longrightarrow>
        resolve rd p prop module container parentPath s
          = Some (Inl (cycleDetected ((if truthy parentPath then ''.'' else '''') @ prop)), s))"
proof (intro conjI allI impI)
  show "map_option fst (andThen (injectLiterals 3 [cyclic] init) (\<lambda>c. readProp 3 c ''a''))
     = Some (Inl (ErrorV (''Cycle detected. Please make a lazy. ''
                          @ ''See https://github.com/langium/ginject#cyclic-dependencies'') None))"
    by (simp add: eval_defs cyclic_def numeral_3_eq_3)
next
  fix rd p k m container parentPath s
  assume "cellAt s p k = Some Requested"
  then show "resolve rd p k m container parentPath s
          = Some (Inl (cycleDetected ((if truthy parentPath then ''.'' else '''') @ k)), s)"
    by (simp add: resolve_alt cellAt_def)
qed

theorem cycle_detected_witness:
  "cellAt resolving 0 ''a'' = Some Requested
   \<and> resolve (readProp 1) 0 ''a'' 0 0 None resolving = Some (Inl (cycleDetected ''a''), resolving)"
proof -
  have h: "cellAt resolving 0 ''a'' = Some Requested"
    by (simp add: resolving_def cellAt_def)
  from cycle_detected have
    "cellAt resolving 0 ''a'' = Some Requested \<longrightarrow>
     resolve (readProp 1) 0 ''a'' 0 0 None resolving
       = Some (Inl (cycleDetected ((if truthy None then ''.'' else '''') @ ''a'')), resolving)"
    by blast
  with h show ?thesis by (simp add: truthy_def)
qed

section \<open>Memoization\<close>

text \<open>
  C1.  The code at a factory whose service is an Error object,
  \<^verbatim>\<open>inject({e: () => new Error('x')})\<close>: the first read of \<open>e\<close> returns the object, the
  second read of \<open>e\<close> throws \<^verbatim>\<open>Construction failure: e\<close>, so the two reads do not return
  the identical value.  The factory is called once.
\<close>

theorem error_service_not_memoized:
  "map_option fst (andThen (injectLiterals 2 [errorService] init) (\<lambda>c. readProp 2 c ''e''))
     = Some (Inr (ErrorV ''x'' None))
   \<and> map_option (\<lambda>(r, s). (r, callsOf 1 s))
        (andThen (injectLiterals 2 [errorService] init)
           (\<lambda>c s. attempt (readProp 2 c ''e'' s) (readProp 2 c ''e'')))
     = Some (Inl (ErrorV ''Construction failure: e'' None), 1)"
  by (simp add: eval_defs errorService_def numeral_2_eq_2)

section \<open>Eager factories\<close>

text \<open>
  C3.  The code at \<^verbatim>\<open>inject({p1: eager(() => 1), p2: () => 2})\<close>: when \<^verbatim>\<open>inject\<close> returns,
  the factory of \<open>p1\<close> has been called once and that of \<open>p2\<close> not at all, but the cache
  entry of \<open>p1\<close> is still empty; the first read of \<open>p1\<close> calls the factory a second time.
\<close>

theorem eager_factory_called_twice:
  "map_option (\<lambda>(r, s). (r, callsOf 1 s, callsOf 2 s, cellAt s 0 ''p1''))
       (injectLiterals 2 [eagerPair] init)
     = Some (Inr (Proxy 0), 1, 0, None)
   \<and> map_option (\<lambda>(r, s). (r, callsOf 1 s, callsOf 2 s, cellAt s 0 ''p1''))
        (andThen (injectLiterals 2 [eagerPair] init) (\<lambda>c. readProp 2 c ''p1''))
     = Some (Inr (Num 1), 2, 0, Some (Stored (Num 1)))"
  by (simp add: eval_defs eagerPair_def numeral_2_eq_2)

section \<open>Cached failures\<close>

text \<open>
  C5.  The code at \<^verbatim>\<open>inject({first: () => { throw new Error('construction error') }})\<close>:
  the first read of \<open>first\<close> throws the factory's error; the second read throws a new
  error with the message \<^verbatim>\<open>Construction failure: first\<close> and no cause, although the
  cache entry holds the original error; the factory has been called once.
\<close>

theorem construction_failure_has_no_cause:
  "map_option fst (andThen (injectLiterals 2 [failing] init) (\<lambda>c. readProp 2 c ''first''))
     = Some (Inl (ErrorV ''construction error'' None))
   \<and> map_option (\<lambda>(r, s). (r, callsOf 1 s, cellAt s 0 ''first''))
        (andThen (injectLiterals 2 [failing] init)
           (\<lambda>c s. attempt (readProp 2 c ''first'' s) (readProp 2 c ''first'')))
     = Some (Inl (ErrorV ''Construction failure: first'' None), 1,
             Some (Stored (ErrorV ''construction error'' None)))"
  by (simp add: eval_defs failing_def numeral_2_eq_2)

section \<open>Paths in error messages\<close>

text \<open>
  C9.  The code at \<^verbatim>\<open>{b: {c: {d: (ctx) => ctx.b.c.d}}}\<close> and at
  \<^verbatim>\<open>{b: {c: {d: () => { throw new Error('boom') }}}}\<close>: the cycle error of the key
  \<open>b.c.d\<close> names \<^verbatim>\<open>.d\<close>, and so does the construction failure of its second read.  The
  proxy of the group \<open>b.c\<close> holds the path \<^verbatim>\<open>.\<close>.
\<close>

theorem nested_path_is_not_full:
  "map_option fst (andThen (injectLiterals 3 [nestedCycle] init) (readPath 3 [''b'', ''c'', ''d'']))
     = Some (Inl (ErrorV (''Cycle detected. Please make .d lazy. ''
                          @ ''See https://github.com/langium/ginject#cyclic-dependencies'') None))
   \<and> map_option (\<lambda>(r, s). (r, map ppath (nodes s)))
        (andThen (injectLiterals 3 [nestedFailure] init)
           (\<lambda>c s. attempt (readPath 3 [''b'', ''c'', ''d''] c s) (readPath 3 [''b'', ''c'', ''d''] c)))
     = Some (Inl (ErrorV ''Construction failure: .d'' None), [None, Some ''.'', Some ''.''])"
  by (simp add: eval_defs nestedCycle_def nestedFailure_def numeral_3_eq_3)

section \<open>Mutation of the modules\<close>

text \<open>
  C8.  The code at \<^verbatim>\<open>inject(m1, m2)\<close> with \<^verbatim>\<open>m1 = {a: {x: () => 1}}\<close> and
  \<^verbatim>\<open>m2 = {a: {y: () => 2}}\<close>.  The literals put \<^verbatim>\<open>m1\<close> at address 0 and its group
  \<^verbatim>\<open>m1.a\<close> at address 1.  Before the call \<^verbatim>\<open>m1.a\<close> has the key \<open>x\<close>; after the call it
  has the keys \<open>x\<close> and \<open>y\<close>.  A later \<^verbatim>\<open>inject(m1)\<close> gives a container whose group \<open>a\<close>
  lists \<open>y\<close>.
\<close>

theorem inject_mutates_nested_group:
  "map_of (objs (snd (literals [groupX, groupY] init)) ! 0) ''a'' = Some (Obj 1)
   \<and> keys (objs (snd (literals [groupX, groupY] init)) ! 1) = [''x'']
   \<and> map_option (\<lambda>(r, s). (map_of (objs s ! 0) ''a'', keys (objs s ! 1)))
        (injectLiterals 3 [groupX, groupY] init)
     = Some (Some (Obj 1), [''x'', ''y''])
   \<and> map_option (\<lambda>(r, s). case r of Inr (Proxy q) \<Rightarrow> trap_ownKeys q s | _ \<Rightarrow> [])
        (andThen (injectLiterals 3 [groupX, groupY] init)
           (\<lambda>c s. andThen (inject 3 [0] s) (\<lambda>c2. readProp 3 c2 ''a'')))
     = Some [''x'', ''y'']"
  by (simp add: eval_defs groupX_def groupY_def numeral_3_eq_3)

section \<open>Failures that are not Error objects\<close>

text \<open>
  C10.  Take an empty cache entry whose module entry is a factory, at a key that is not a
  name of \<^verbatim>\<open>Object.prototype\<close> (at such a name a read is the inherited member and the
  factory is never invoked), and let the invocation of the factory throw a value \<open>e\<close>
  that is not an Error object.  Then the first access
  throws \<open>e\<close> and has called the factory once for this entry; and after any further reads
  of any properties, every access to the entry returns \<^verbatim>\<open>undefined\<close> without a throw,
  leaves the state as it is, and the calls made for the entry are still that one call.
\<close>

theorem non_error_failure_reads_undefined:
  assumes p: "p < length (nodes s)" and empty: "cellAt s p k = None"
    and own: "k \<notin> set objectPrototype"
    and fac: "map_of (objs s ! pmodule (nodes s ! p)) k = Some (Fn f)"
    and throws: "invoke f (croot s p) (Some (p, k)) (readProp n) (setProp p k Requested s) = Some (Inl e, s2)"
    and nonError: "\<not> isError e"
  shows "\<exists>s1. readProp (Suc n) (Proxy p) k s = Some (Inl e, s1)
           \<and> length (callsFor p k s1) = Suc (length (callsFor p k s))
           \<and> (\<forall>m ops s' j. reads m ops s1 = Some s' \<longrightarrow>
                 readProp (Suc j) (Proxy p) k s' = Some (Inr Undefined, s')
                 \<and> callsFor p k s' = callsFor p k s1)"
proof -
  let ?s1 = "setProp p k (Stored Undefined) s2"
  note fa = first_access[OF p empty own fac throws]
  have 1: "readProp (Suc n) (Proxy p) k s = Some (Inl e, ?s1)" using fa(1) nonError by simp
  have 2: "length (callsFor p k ?s1) = Suc (length (callsFor p k s))" using fa(3) by simp
  have p1: "p < length (nodes ?s1)" using fa(2) by simp
  have st: "cellAt ?s1 p k = Some (Stored Undefined)" using fa(2) by (simp add: cellAt_setProp)
  have 3: "\<forall>m ops s' j. reads m ops ?s1 = Some s' \<longrightarrow>
                 readProp (Suc j) (Proxy p) k s' = Some (Inr Undefined, s')
                 \<and> callsFor p k s' = callsFor p k ?s1"
  proof (intro allI impI)
    fix m ops s' j assume r: "reads m ops ?s1 = Some s'"
    from stored_stable(1)[OF p1 st r, of j] stored_stable(2)[OF p1 st r]
    show "readProp (Suc j) (Proxy p) k s' = Some (Inr Undefined, s')
                 \<and> callsFor p k s' = callsFor p k ?s1"
      by (simp add: isError_def)
  qed
  from 1 2 3 show ?thesis by blast
qed

theorem non_error_failure_reads_undefined_witness:
  "0 < length (nodes (injected [throwsString]))
   \<and> cellAt (injected [throwsString]) 0 ''a'' = None
   \<and> ''a'' \<notin> set objectPrototype
   \<and> \<not> isError (Str ''boom'')
   \<and> (\<exists>s1. readProp 1 (Proxy 0) ''a'' (injected [throwsString]) = Some (Inl (Str ''boom''), s1)
          \<and> readProp 1 (Proxy 0) ''a'' s1 = Some (Inr Undefined, s1))"
proof -
  let ?s = "injected [throwsString]"
  let ?f = "lazy 1 (\<lambda>c. Throw (Str ''boom''))"
  let ?s2 = "(setProp 0 ''a'' Requested ?s)\<lparr>calls := calls ?s @
               [\<lparr>callee = 1, ctx = Proxy 0, site = Some (0, ''a'')\<rparr>]\<rparr>"
  have s: "?s = \<lparr>objs = [[(''a'', Fn ?f)], [(''a'', Fn ?f)]],
                 nodes = [\<lparr>ptarget = [], pmodule = 1, pcontainer = None, ppath = None\<rparr>],
                 calls = []\<rparr>"
    by (simp add: injected_def throwsString_def eval_defs eval_nat_numeral)
  have h1: "0 < length (nodes ?s)" by (simp add: s)
  have h2: "cellAt ?s 0 ''a'' = None" by (simp add: s cellAt_def)
  have h3: "map_of (objs ?s ! pmodule (nodes ?s ! 0)) ''a'' = Some (Fn ?f)" by (simp add: s)
  have h4: "invoke ?f (croot ?s 0) (Some (0, ''a'')) (readProp 0) (setProp 0 ''a'' Requested ?s)
              = Some (Inl (Str ''boom''), ?s2)"
    by (simp add: s invoke_def croot_def lazy_def setProp_def)
  have h5: "\<not> isError (Str ''boom'')" by (simp add: isError_def)
  have h6: "''a'' \<notin> set objectPrototype" by (simp add: objectPrototype_def)
  from non_error_failure_reads_undefined[OF h1 h2 h6 h3 h4 h5]
  obtain s1 where s1: "readProp (Suc 0) (Proxy 0) ''a'' ?s = Some (Inl (Str ''boom''), s1)"
    and later: "\<forall>m ops s' j. reads m ops s1 = Some s' \<longrightarrow>
                 readProp (Suc j) (Proxy 0) ''a'' s' = Some (Inr Undefined, s')
                 \<and> callsFor 0 ''a'' s' = callsFor 0 ''a'' s1"
    by blast
  have "reads 0 [] s1 = Some s1" by simp
  with later have "readProp (Suc 0) (Proxy 0) ''a'' s1 = Some (Inr Undefined, s1)" by blast
  with s1 h1 h2 h5 h6 show ?thesis by auto
qed

section \<open>The root container\<close>



section \<open>Enumeration\<close>




section \<open>The merge\<close>

text \<open>
  Modules that are separate objects.  For every ordered list of modules written as object
  literals with distinct keys, nested at most as deep as the recursion budget, the merge
  \<^verbatim>\<open>modules.reduce(merge, {})\<close> of \<^verbatim>\<open>inject\<close> returns, and the object it returns is the
  merged tree of the description: the modules folded from the left by the rule that, key
  by key over the later module, two groups are merged recursively and any other entry of
  the later module replaces the earlier one.  The containers and the record of factory
  calls are untouched.
\<close>

theorem merge_is_spec_merge:
  assumes "\<forall>kvs\<in>set kvss. wfE kvs \<and> depthE kvs < n"
  shows "\<exists>ms s1 acc s'.
           literals (map Group kvss) s = (ms, s1) \<and> mergeAll n ms s1 = Some (acc, s')
           \<and> denotesE (objs s') (objs s' ! acc) (spec_mergeAll kvss)
           \<and> nodes s' = nodes s \<and> calls s' = calls s"
proof -
  obtain ms s1 where lits: "literals (map Group kvss) s = (ms, s1)"
    by (cases "literals (map Group kvss) s")
  have wfs: "\<forall>kvs\<in>set kvss. wfE kvs" using assms by simp
  from literals_rep[OF wfs, of s] lits obtain B where rm: "repM (objs s1) ms kvss B"
    and g: "grown {} s s1" by auto
  let ?acc = "length (objs s1)"
  let ?s0 = "s1\<lparr>objs := objs s1 @ [[]]\<rparr>"
  have n: "newObj s1 = (?acc, ?s0)" by (simp add: newObj_def)
  have bnd: "\<forall>a\<in>B. a < length (objs s1)" using rm by (rule repM_bound)
  have "\<forall>a\<in>B. objs ?s0 ! a = objs s1 ! a" using bnd by (simp add: nth_append)
  then have rm0: "repM (objs ?s0) ms kvss B" by (intro repM_grow[OF rm]) simp_all
  have "repE (objs ?s0) (objs ?s0 ! ?acc) [] {}" by simp
  then have rt: "repV (objs ?s0) (Obj ?acc) (Group []) (insert ?acc {})"
    by (intro repV_repE.group) simp_all
  have d: "insert ?acc {} \<inter> B = {}" using bnd by auto
  from reduce_refines[OF rm0 rt d assms] obtain s' A' where
    red: "reduce (merge n) ms ?acc ?s0 = Some (?acc, s')"
    and r: "repV (objs s') (Obj ?acc) (Group (foldl spec_merge [] kvss)) A'"
    and u: "unchanged (insert ?acc {} \<union> B) ?s0 s'" by blast
  have ma: "mergeAll n ms s1 = Some (?acc, s')" using red by (simp add: mergeAll_def n)
  from rep_denotes(1)[OF r] have dn: "denotesE (objs s') (objs s' ! ?acc) (spec_mergeAll kvss)"
    by (simp add: spec_mergeAll_def)
  have "nodes s' = nodes s" "calls s' = calls s"
    using unchangedD(3,4)[OF u] grownD(3,4)[OF g] by simp_all
  with lits ma dn show ?thesis by (intro exI[of _ ms] exI[of _ s1] exI[of _ ?acc] exI[of _ s']) simp
qed

theorem merge_is_spec_merge_witness:
  "\<exists>ms s1 acc s'.
     literals (map Group [[(''a'', Group [(''x'', Leaf (lazy 1 (\<lambda>c. Return (Num 1))))]),
                             (''b'', Leaf (lazy 2 (\<lambda>c. Return (Num 2))))],
                            [(''a'', Group [(''y'', Leaf (lazy 3 (\<lambda>c. Return (Num 3))))]),
                             (''b'', Leaf (lazy 4 (\<lambda>c. Return (Num 4))))]]) init = (ms, s1)
     \<and> mergeAll 2 ms s1 = Some (acc, s')
     \<and> denotesE (objs s') (objs s' ! acc)
          [(''a'', Group [(''x'', Leaf (lazy 1 (\<lambda>c. Return (Num 1)))),
                          (''y'', Leaf (lazy 3 (\<lambda>c. Return (Num 3))))]),
           (''b'', Leaf (lazy 4 (\<lambda>c. Return (Num 4))))]
     \<and> nodes s' = nodes init \<and> calls s' = calls init"
  using merge_is_spec_merge[of "[[(''a'', Group [(''x'', Leaf (lazy 1 (\<lambda>c. Return (Num 1))))]),
                             (''b'', Leaf (lazy 2 (\<lambda>c. Return (Num 2))))],
                            [(''a'', Group [(''y'', Leaf (lazy 3 (\<lambda>c. Return (Num 3))))]),
                             (''b'', Leaf (lazy 4 (\<lambda>c. Return (Num 4))))]]" 2 init]
  by (simp add: spec_mergeAll_def)

text \<open>
  C2.  The code at \<^verbatim>\<open>inject(m1, m2, m1)\<close> with \<^verbatim>\<open>m1 = {a: {x: () => 1}}\<close> and
  \<^verbatim>\<open>m2 = {a: {x: () => 2}}\<close>, the object \<^verbatim>\<open>m1\<close> passed in two positions.  The literals put
  \<^verbatim>\<open>m1\<close> at address 0 and \<^verbatim>\<open>m2\<close> at address 2.  The merge of \<^verbatim>\<open>m2\<close> writes its factory
  into the group \<^verbatim>\<open>m1.a\<close>, which the result shares, so that the last merge finds it in
  \<^verbatim>\<open>m1\<close>: the container reads \<^verbatim>\<open>a.x\<close> as 2.  By the rule of the description the last
  module wins at the leaf \<^verbatim>\<open>a.x\<close> and the merged tree is that of \<^verbatim>\<open>m1\<close>, whose factory
  returns 1.
\<close>

theorem module_passed_twice_loses_its_factory:
  "fst (literals [groupX, groupX2] init) = [0, 2]
   \<and> map_option fst
        (andThen (inject 3 [0, 2, 0] (snd (literals [groupX, groupX2] init)))
           (\<lambda>c s. andThen (readProp 3 c ''a'' s) (\<lambda>g. readProp 3 g ''x'')))
     = Some (Inr (Num 2))
   \<and> spec_mergeAll (map entries [groupX, groupX2, groupX]) = entries groupX"
  by (simp add: eval_defs groupX_def groupX2_def spec_mergeAll_def numeral_3_eq_3)

end
